theory Spec2Isabelle
  imports Complex_Main "HOL-Library.Sublist"
begin

section \<open>JavaScript values\<close>

text \<open>
  The repository holds two variants of \<^verbatim>\<open>scrapeReviews.ts\<close>. The first one (with
  \<^verbatim>\<open>insertIfNew\<close>) reads every field of a review from a fixed position; the second one
  (with \<^verbatim>\<open>insert\<close>, \<^verbatim>\<open>walkDeep\<close>, \<^verbatim>\<open>extractReviewId\<close> and
  \<^verbatim>\<open>extractReviewText\<close>) scans the block. Both define a function called
  \<^verbatim>\<open>parseBatch\<close>; the model of the first is \<open>parseBatch_A\<close>, the model of the second is
  \<open>parseBatch_B\<close>.

  A string is a list of code units. The model covers the code units 0 to 255, one
  \<^typ>\<open>char\<close> each.

  A number is an IEEE double. The model keeps the mathematical value of a finite double
  (\<open>Fin\<close>) and the three special values; the two zeros are identified, as no operation of
  the program tells them apart.
\<close>

datatype jsnum = Fin rat | PosInf | NegInf | NaN

datatype jsval =
    JUndefined
  | JNull
  | JBool bool
  | JNum jsnum
  | JStr string
  | JArr "jsval list"
  | JObj "(string \<times> jsval) list"

datatype error = TypeError

text \<open>\<^verbatim>\<open>Number.isInteger(n)\<close>\<close>

fun isInteger :: "jsnum \<Rightarrow> bool" where
  "isInteger (Fin q) = (of_int \<lfloor>q\<rfloor> = q)"
| "isInteger _ = False"

text \<open>\<^verbatim>\<open>lo <= n && n <= hi\<close> for integer literals \<open>lo\<close>, \<open>hi\<close>; every comparison with NaN is false.\<close>

fun num_between :: "int \<Rightarrow> int \<Rightarrow> jsnum \<Rightarrow> bool" where
  "num_between lo hi (Fin q) = (of_int lo \<le> q \<and> q \<le> of_int hi)"
| "num_between lo hi _ = False"

text \<open>Truthiness, as tested by \<^verbatim>\<open>!v\<close> and \<^verbatim>\<open>if (v)\<close>.\<close>

fun truthy :: "jsval \<Rightarrow> bool" where
  "truthy JUndefined = False"
| "truthy JNull = False"
| "truthy (JBool b) = b"
| "truthy (JNum n) = (n \<noteq> Fin 0 \<and> n \<noteq> NaN)"
| "truthy (JStr s) = (s \<noteq> [])"
| "truthy (JArr xs) = True"
| "truthy (JObj kvs) = True"

fun isArray :: "jsval \<Rightarrow> bool" where
  "isArray (JArr xs) = True"
| "isArray _ = False"

fun isString :: "jsval \<Rightarrow> bool" where
  "isString (JStr s) = True"
| "isString _ = False"

fun nullish :: "jsval \<Rightarrow> bool" where
  "nullish JUndefined = True"
| "nullish JNull = True"
| "nullish _ = False"

subsection \<open>Property reads\<close>

text \<open>The decimal numeral of an array index, which is the property key of \<^verbatim>\<open>v[i]\<close>.\<close>

definition digit_char :: "nat \<Rightarrow> char" where
  "digit_char d = char_of (48 + d)"

function dec :: "nat \<Rightarrow> string" where
  "dec n = (if n < 10 then [digit_char n] else dec (n div 10) @ [digit_char (n mod 10)])"
  by pat_completeness auto
termination
  by (relation "measure id") auto

declare dec.simps [simp del]

text \<open>
  An object made by \<^verbatim>\<open>JSON.parse\<close> has own data properties only, in the order of the
  text; a key written twice keeps its last value. No key that the program reads (an index,
  \<^verbatim>\<open>length\<close>) is inherited from \<^verbatim>\<open>Object.prototype\<close>.
\<close>

definition own_prop :: "(string \<times> jsval) list \<Rightarrow> string \<Rightarrow> jsval" where
  "own_prop kvs k = (case map_of (rev kvs) k of Some v \<Rightarrow> v | None \<Rightarrow> JUndefined)"

text \<open>The value of \<^verbatim>\<open>v[i]\<close> for a value \<open>v\<close> that is neither null nor undefined.\<close>

fun read_prop :: "jsval \<Rightarrow> nat \<Rightarrow> jsval" where
  "read_prop (JArr xs) i = (if i < length xs then xs ! i else JUndefined)"
| "read_prop (JStr s) i = (if i < length s then JStr [s ! i] else JUndefined)"
| "read_prop (JObj kvs) i = own_prop kvs (dec i)"
| "read_prop _ i = JUndefined"

text \<open>\<^verbatim>\<open>v[i]\<close>: a TypeError on null and undefined.\<close>

definition get_prop :: "jsval \<Rightarrow> nat \<Rightarrow> error + jsval" where
  "get_prop v i = (if nullish v then Inl TypeError else Inr (read_prop v i))"

text \<open>\<^verbatim>\<open>v?.[i]\<close>: undefined on null and undefined.\<close>

definition opt_get :: "jsval \<Rightarrow> nat \<Rightarrow> jsval" where
  "opt_get v i = (if nullish v then JUndefined else read_prop v i)"

text \<open>Sequencing of computations that may raise.\<close>

definition bindE :: "error + 'a \<Rightarrow> ('a \<Rightarrow> error + 'b) \<Rightarrow> error + 'b" where
  "bindE m f = (case m of Inl e \<Rightarrow> Inl e | Inr x \<Rightarrow> f x)"

section \<open>Strings\<close>

definition startsWith :: "string \<Rightarrow> string \<Rightarrow> bool" where
  "startsWith s p = prefix p s"

text \<open>\<^verbatim>\<open>s.includes(p)\<close>\<close>

fun str_includes :: "string \<Rightarrow> string \<Rightarrow> bool" where
  "str_includes [] p = (p = [])"
| "str_includes (c # cs) p = (prefix p (c # cs) \<or> str_includes cs p)"

text \<open>
  \<^verbatim>\<open>s.split(sep)\<close> for a separator that is not empty: the pieces between the
  occurrences of \<open>sep\<close>, found from the left without overlap.
\<close>

fun split_from :: "string \<Rightarrow> string \<Rightarrow> string \<Rightarrow> string list" where
  "split_from sep piece [] = [rev piece]"
| "split_from sep piece (c # cs) =
     (if prefix sep (c # cs) then rev piece # split_from sep [] (drop (length sep - 1) cs)
      else split_from sep (c # piece) cs)"

definition js_split :: "string \<Rightarrow> string \<Rightarrow> string list" where
  "js_split s sep = split_from sep [] s"

text \<open>
  White space and line terminators of ECMAScript among the code units 0 to 255; they are
  what \<^verbatim>\<open>trim\<close> removes and what \<^verbatim>\<open>\s\<close> matches.
\<close>

definition js_space :: "char \<Rightarrow> bool" where
  "js_space c = (of_char c \<in> {9, 10, 11, 12, 13, 32, 160 :: nat})"

definition trim :: "string \<Rightarrow> string" where
  "trim s = rev (dropWhile js_space (rev (dropWhile js_space s)))"

definition is_digit :: "char \<Rightarrow> bool" where
  "is_digit c = (48 \<le> (of_char c :: nat) \<and> (of_char c :: nat) \<le> 57)"

definition is_alpha :: "char \<Rightarrow> bool" where
  "is_alpha c = ((65 \<le> (of_char c :: nat) \<and> (of_char c :: nat) \<le> 90)
               \<or> (97 \<le> (of_char c :: nat) \<and> (of_char c :: nat) \<le> 122))"

section \<open>Tree walkers\<close>

text \<open>
  \<^verbatim>\<open>walkDeep(node, strFn, numFn)\<close> of the second variant. The callbacks update variables
  of the caller; the model threads them as a state \<open>st\<close>.
\<close>

fun walkDeep :: "jsval \<Rightarrow> (string \<Rightarrow> 's \<Rightarrow> 's) \<Rightarrow> (jsnum \<Rightarrow> 's \<Rightarrow> 's) \<Rightarrow> 's \<Rightarrow> 's"
  and walkDeep_forEach :: "jsval list \<Rightarrow> (string \<Rightarrow> 's \<Rightarrow> 's) \<Rightarrow> (jsnum \<Rightarrow> 's \<Rightarrow> 's) \<Rightarrow> 's \<Rightarrow> 's"
where
  "walkDeep (JStr s) strFn numFn st = strFn s st"
| "walkDeep (JNum n) strFn numFn st = numFn n st"
| "walkDeep (JArr xs) strFn numFn st = walkDeep_forEach xs strFn numFn st"
| "walkDeep JUndefined strFn numFn st = st"
| "walkDeep JNull strFn numFn st = st"
| "walkDeep (JBool b) strFn numFn st = st"
| "walkDeep (JObj kvs) strFn numFn st = st"
| "walkDeep_forEach [] strFn numFn st = st"
| "walkDeep_forEach (v # vs) strFn numFn st =
     walkDeep_forEach vs strFn numFn (walkDeep v strFn numFn st)"

text \<open>\<^verbatim>\<open>walk(n, fn)\<close>, the local helper of \<^verbatim>\<open>parseBatch\<close> in the first variant.\<close>

fun walk :: "jsval \<Rightarrow> (string \<Rightarrow> 's \<Rightarrow> 's) \<Rightarrow> 's \<Rightarrow> 's"
  and walk_forEach :: "jsval list \<Rightarrow> (string \<Rightarrow> 's \<Rightarrow> 's) \<Rightarrow> 's \<Rightarrow> 's"
where
  "walk (JStr s) fn st = fn s st"
| "walk (JArr xs) fn st = walk_forEach xs fn st"
| "walk JUndefined fn st = st"
| "walk JNull fn st = st"
| "walk (JBool b) fn st = st"
| "walk (JNum n) fn st = st"
| "walk (JObj kvs) fn st = st"
| "walk_forEach [] fn st = st"
| "walk_forEach (x # xs) fn st = walk_forEach xs fn (walk x fn st)"

text \<open>
  The leaves of a value in the order of a depth-first, left-to-right traversal of its
  arrays: the order in which both walkers call back.
\<close>

datatype leaf = LStr string | LNum jsnum

fun leaves :: "jsval \<Rightarrow> leaf list" and leaves_list :: "jsval list \<Rightarrow> leaf list" where
  "leaves (JStr s) = [LStr s]"
| "leaves (JNum n) = [LNum n]"
| "leaves (JArr xs) = leaves_list xs"
| "leaves JUndefined = []"
| "leaves JNull = []"
| "leaves (JBool b) = []"
| "leaves (JObj kvs) = []"
| "leaves_list [] = []"
| "leaves_list (v # vs) = leaves v @ leaves_list vs"

fun leaf_strings :: "leaf list \<Rightarrow> string list" where
  "leaf_strings [] = []"
| "leaf_strings (LStr s # ls) = s # leaf_strings ls"
| "leaf_strings (LNum n # ls) = leaf_strings ls"

fun leaf_numbers :: "leaf list \<Rightarrow> jsnum list" where
  "leaf_numbers [] = []"
| "leaf_numbers (LStr s # ls) = leaf_numbers ls"
| "leaf_numbers (LNum n # ls) = n # leaf_numbers ls"

definition string_leaves :: "jsval \<Rightarrow> string list" where
  "string_leaves v = leaf_strings (leaves v)"

definition number_leaves :: "jsval \<Rightarrow> jsnum list" where
  "number_leaves v = leaf_numbers (leaves v)"

text \<open>The callback that a walker makes at a leaf.\<close>

definition leaf_step :: "(string \<Rightarrow> 's \<Rightarrow> 's) \<Rightarrow> (jsnum \<Rightarrow> 's \<Rightarrow> 's) \<Rightarrow> leaf \<Rightarrow> 's \<Rightarrow> 's" where
  "leaf_step f g l = (case l of LStr s \<Rightarrow> f s | LNum n \<Rightarrow> g n)"

section \<open>The second variant: scanning extractors\<close>

text \<open>The parsed review, without the three fields that \<^verbatim>\<open>scrapePlace\<close> adds.\<close>

record 'i review =
  review_id :: 'i
  author :: string
  rating :: "jsnum option"
  review_text :: string
  review_date :: string
  images :: "string list"

record 'i parse_result =
  reviews :: "'i review list"
  token :: jsval

datatype Endpoint = Entities | Ugc

subsection \<open>\<^verbatim>\<open>extractReviewText\<close>\<close>

text \<open>\<^verbatim>\<open>typeof lang === 'string' && /^[A-Za-z]{2}$/.test(lang)\<close>\<close>

fun lang_tag :: "jsval \<Rightarrow> bool" where
  "lang_tag (JStr [a, b]) = (is_alpha a \<and> is_alpha b)"
| "lang_tag _ = False"

text \<open>
  \<^verbatim>\<open>Array.isArray(next) && Array.isArray(next[0]) && typeof next[0][0] === 'string'\<close>,
  with the string \<^verbatim>\<open>next[0][0]\<close> when the test holds.
\<close>

fun text_array :: "jsval \<Rightarrow> string option" where
  "text_array (JArr (JArr (JStr t # ys) # xs)) = Some t"
| "text_array _ = None"

text \<open>Pattern A: the loop over \<^verbatim>\<open>i < node.length - 1\<close>.\<close>

fun patternA :: "jsval list \<Rightarrow> string option" where
  "patternA (lang # next # rest) =
     (if lang_tag lang \<and> text_array next \<noteq> None then map_option trim (text_array next)
      else patternA (next # rest))"
| "patternA [x] = None"
| "patternA [] = None"

text \<open>Pattern B: the last two elements of the node.\<close>

fun wrapped_lang_tag :: "jsval \<Rightarrow> bool" where
  "wrapped_lang_tag (JArr [p]) = lang_tag p"
| "wrapped_lang_tag _ = False"

definition patternB :: "jsval list \<Rightarrow> string option" where
  "patternB node =
     (if 2 \<le> length node then
        (let pen = node ! (length node - 2); last = node ! (length node - 1)
         in if wrapped_lang_tag pen \<and> text_array last \<noteq> None
            then map_option trim (text_array last) else None)
      else None)"

text \<open>
  \<^verbatim>\<open>recurse\<close>, with \<open>None\<close> for \<^verbatim>\<open>null\<close>. A value made by \<^verbatim>\<open>JSON.parse\<close> is a tree
  whose arrays are all distinct objects, so the test \<^verbatim>\<open>seen.has(node)\<close> is false at every
  call and the set \<^verbatim>\<open>seen\<close> is not part of the model.
\<close>

fun recurse :: "jsval \<Rightarrow> string option"
  and recurse_children :: "jsval list \<Rightarrow> string option"
where
  "recurse (JArr node) =
     (case patternA node of
        Some t \<Rightarrow> Some t
      | None \<Rightarrow> (case patternB node of
                   Some t \<Rightarrow> Some t
                 | None \<Rightarrow> recurse_children node))"
| "recurse JUndefined = None"
| "recurse JNull = None"
| "recurse (JBool b) = None"
| "recurse (JNum n) = None"
| "recurse (JStr s) = None"
| "recurse (JObj kvs) = None"
| "recurse_children [] = None"
| "recurse_children (child # rest) =
     (case recurse child of Some hit \<Rightarrow> Some hit | None \<Rightarrow> recurse_children rest)"

definition extractReviewText :: "jsval \<Rightarrow> string" where
  "extractReviewText block = (case recurse block of Some t \<Rightarrow> t | None \<Rightarrow> [])"

subsection \<open>\<^verbatim>\<open>extractReviewId\<close>\<close>

definition reply_marker :: string where
  "reply_marker = ''/customers/reviews/reply?p=''"

text \<open>\<^verbatim>\<open>s.split('p=')[1]\<close>, with \<open>None\<close> for undefined.\<close>

definition split_at_1 :: "string \<Rightarrow> string option" where
  "split_at_1 s = (case js_split s ''p='' of a # b # rest \<Rightarrow> Some b | _ \<Rightarrow> None)"

text \<open>
  The callback of the fallback walk. \<open>postId\<close> is \<open>None\<close> while it is null (or undefined);
  \<^verbatim>\<open>!postId\<close> also holds for the empty string.
\<close>

definition postId_step :: "string \<Rightarrow> string option \<Rightarrow> string option" where
  "postId_step s postId =
     (if (postId = None \<or> postId = Some []) \<and> str_includes s reply_marker
      then split_at_1 s else postId)"

definition extractReviewId :: "jsval \<Rightarrow> jsval \<Rightarrow> string" where
  "extractReviewId block pageToken =
     (let candidate = opt_get (opt_get block 0) 0
      in case candidate of
           JStr c \<Rightarrow>
             if candidate \<noteq> pageToken then c
             else (case walkDeep block postId_step (\<lambda>n p. p) None of
                     Some p \<Rightarrow> p | None \<Rightarrow> c)
         | _ \<Rightarrow>
             (case walkDeep block postId_step (\<lambda>n p. p) None of
                Some p \<Rightarrow> p | None \<Rightarrow> []))"

subsection \<open>Rating, date and images\<close>

text \<open>
  \<^verbatim>\<open>/ago$|Yesterday$|^[A-Za-z]{3}\s\d{4}$|^\d{1,2}\/\d{1,2}\/\d{4}$/.test(s)\<close>
\<close>

fun month_year :: "string \<Rightarrow> bool" where
  "month_year [a, b, c, w, d1, d2, d3, d4] =
     (is_alpha a \<and> is_alpha b \<and> is_alpha c \<and> js_space w
      \<and> is_digit d1 \<and> is_digit d2 \<and> is_digit d3 \<and> is_digit d4)"
| "month_year _ = False"

definition slash_then :: "string \<Rightarrow> (string \<Rightarrow> bool) \<Rightarrow> bool" where
  "slash_then s k = (case s of [] \<Rightarrow> False | c # r \<Rightarrow> c = CHR ''/'' \<and> k r)"

definition one_or_two_digits :: "string \<Rightarrow> bool" where
  "one_or_two_digits s = (length (takeWhile is_digit s) = 1 \<or> length (takeWhile is_digit s) = 2)"

definition numeric_date :: "string \<Rightarrow> bool" where
  "numeric_date s =
     (one_or_two_digits s \<and>
      slash_then (dropWhile is_digit s) (\<lambda>r.
        one_or_two_digits r \<and>
        slash_then (dropWhile is_digit r) (\<lambda>y. length y = 4 \<and> list_all is_digit y)))"

definition date_like :: "string \<Rightarrow> bool" where
  "date_like s = (suffix ''ago'' s \<or> suffix ''Yesterday'' s \<or> month_year s \<or> numeric_date s)"

text \<open>
  A \<^verbatim>\<open>Set\<close> of strings keeps its members in the order of their first insertion; it is a
  list without repetition.
\<close>

definition set_add :: "string list \<Rightarrow> string \<Rightarrow> string list" where
  "set_add xs s = (if s \<in> set xs then xs else xs @ [s])"

text \<open>The variables \<^verbatim>\<open>rating\<close>, \<^verbatim>\<open>review_date\<close> and \<^verbatim>\<open>images\<close> of the loop body.\<close>

record scan =
  s_rating :: "jsnum option"
  s_date :: string
  s_images :: "string list"

definition scan_init :: scan where
  "scan_init = \<lparr>s_rating = None, s_date = [], s_images = []\<rparr>"

definition scan_str :: "string \<Rightarrow> scan \<Rightarrow> scan" where
  "scan_str s st =
     (if \<not> startsWith s ''http'' \<and> s_date st = [] then
        (if date_like s then st\<lparr>s_date := s\<rparr> else st)
      else if startsWith s ''http'' then st\<lparr>s_images := set_add (s_images st) s\<rparr>
      else st)"

definition scan_num :: "jsnum \<Rightarrow> scan \<Rightarrow> scan" where
  "scan_num n st =
     (if s_rating st = None \<and> isInteger n \<and> num_between 1 5 n
      then st\<lparr>s_rating := Some n\<rparr> else st)"

subsection \<open>Author\<close>

text \<open>
  \<^verbatim>\<open>if (Array.isArray(b?.[0]?.[1]?.[4]?.[5]) && typeof b[0][1][4][5][0] === 'string')
      author = b[0][1][4][5][0];\<close>
  The reads after the test are plain reads, which raise on null and undefined.
\<close>

definition path_0145 :: "jsval \<Rightarrow> error + jsval" where
  "path_0145 b =
     bindE (get_prop b 0) (\<lambda>b0.
     bindE (get_prop b0 1) (\<lambda>b1.
     bindE (get_prop b1 4) (\<lambda>b4.
     get_prop b4 5)))"

definition author_B :: "jsval \<Rightarrow> error + string" where
  "author_B b =
     (if isArray (opt_get (opt_get (opt_get (opt_get b 0) 1) 4) 5) then
        bindE (path_0145 b) (\<lambda>p.
        bindE (get_prop p 0) (\<lambda>a.
        case a of JStr s \<Rightarrow> Inr s | _ \<Rightarrow> Inr []))
      else Inr [])"

subsection \<open>\<^verbatim>\<open>parseBatch\<close> of the second variant\<close>

text \<open>The security prefix \<^verbatim>\<open>)]}'\<close> and \<^verbatim>\<open>raw.replace(XSSI, '').trim()\<close>.\<close>

definition XSSI :: string where
  "XSSI = [CHR 0x29, CHR 0x5D, CHR 0x7D, CHR 0x27]"

definition strip_XSSI :: "string \<Rightarrow> string" where
  "strip_XSSI raw = (if prefix XSSI raw then drop (length XSSI) raw else raw)"

definition cleaned :: "string \<Rightarrow> string" where
  "cleaned raw = trim (strip_XSSI raw)"

text \<open>
  \<^verbatim>\<open>const blocks: any[] = Array.isArray(data?.[2]) ? data[2] : [];\<close>
  The loop \<^verbatim>\<open>for (const b of blocks)\<close> raises on a value that is not iterable.
\<close>

definition blocks_of :: "jsval \<Rightarrow> error + jsval list" where
  "blocks_of data =
     (if isArray (opt_get data 2) then
        bindE (get_prop data 2) (\<lambda>v. case v of JArr xs \<Rightarrow> Inr xs | _ \<Rightarrow> Inl TypeError)
      else Inr [])"

text \<open>The body of the loop; \<open>None\<close> is \<^verbatim>\<open>continue\<close>.\<close>

definition parse_block_B :: "jsval \<Rightarrow> jsval \<Rightarrow> error + string review option" where
  "parse_block_B data b =
     (if \<not> isArray b then Inr None
      else
        bindE (get_prop data 1) (\<lambda>pageToken.
        let rid = extractReviewId b pageToken in
        if rid = [] then Inr None
        else
          bindE (author_B b) (\<lambda>a.
          let txt = extractReviewText b;
              st = walkDeep b scan_str scan_num scan_init
          in Inr (Some \<lparr>review_id = rid, author = a, rating = s_rating st,
                         review_text = txt, review_date = s_date st,
                         images = take 8 (s_images st)\<rparr>))))"

fun parse_blocks_B :: "jsval \<Rightarrow> jsval list \<Rightarrow> error + string review list" where
  "parse_blocks_B data [] = Inr []"
| "parse_blocks_B data (b # bs) =
     bindE (parse_block_B data b) (\<lambda>r.
     bindE (parse_blocks_B data bs) (\<lambda>rs.
     Inr (case r of None \<Rightarrow> rs | Some x \<Rightarrow> x # rs)))"

text \<open>
  The subtraction \<^verbatim>\<open>data.length - 1\<close> converts \<^verbatim>\<open>data.length\<close> to a number. For an array
  or a string that is its length. For an object it is the own property \<^verbatim>\<open>length\<close>, and
  the conversion of an object to a primitive value calls its \<^verbatim>\<open>valueOf\<close> and
  \<^verbatim>\<open>toString\<close>: the inherited \<^verbatim>\<open>valueOf\<close> returns the object itself, so the result comes
  from \<^verbatim>\<open>toString\<close>, and an own property \<^verbatim>\<open>toString\<close> (never callable in a parsed value)
  leaves no method to call: a TypeError. An array is converted by joining its elements, each
  converted the same way.
\<close>

fun to_primitive_throws :: "jsval \<Rightarrow> bool"
  and to_primitive_throws_any :: "jsval list \<Rightarrow> bool"
where
  "to_primitive_throws (JObj kvs) = list_ex (\<lambda>kv. fst kv = ''toString'') kvs"
| "to_primitive_throws (JArr xs) = to_primitive_throws_any xs"
| "to_primitive_throws JUndefined = False"
| "to_primitive_throws JNull = False"
| "to_primitive_throws (JBool b) = False"
| "to_primitive_throws (JNum n) = False"
| "to_primitive_throws (JStr s) = False"
| "to_primitive_throws_any [] = False"
| "to_primitive_throws_any (x # xs) = (to_primitive_throws x \<or> to_primitive_throws_any xs)"

text \<open>
  \<^verbatim>\<open>data[data.length - 1]\<close> for a value \<open>data\<close>. For an object the property key is the
  string of the number \<^verbatim>\<open>data.length - 1\<close>; the conversions of a value to a number and
  of a number to a string are built into the language, and the parameter \<open>K\<close> stands for
  them: \<open>K v\<close> is the key \<^verbatim>\<open>String(v - 1)\<close>.
\<close>

fun last_read :: "(jsval \<Rightarrow> string) \<Rightarrow> jsval \<Rightarrow> error + jsval" where
  "last_read K (JArr xs) = Inr (if xs = [] then JUndefined else last xs)"
| "last_read K (JStr s) = Inr (if s = [] then JUndefined else JStr [last s])"
| "last_read K (JObj kvs) =
     (if to_primitive_throws (own_prop kvs ''length'') then Inl TypeError
      else Inr (own_prop kvs (K (own_prop kvs ''length''))))"
| "last_read K (JBool b) = Inr JUndefined"
| "last_read K (JNum n) = Inr JUndefined"
| "last_read K JUndefined = Inl TypeError"
| "last_read K JNull = Inl TypeError"

text \<open>
  \<^verbatim>\<open>ep === 'ugc'
      ? (typeof data?.[1] === 'string' ? data[1] : null)
      : (Array.isArray(data?.[data.length - 1]) ? data[data.length - 1][0] : null)\<close>
  The optional read does not evaluate its index when \<open>data\<close> is null or undefined.
\<close>

definition next_token :: "(jsval \<Rightarrow> string) \<Rightarrow> jsval \<Rightarrow> Endpoint \<Rightarrow> error + jsval" where
  "next_token K data ep =
     (case ep of
        Ugc \<Rightarrow> if isString (opt_get data 1) then get_prop data 1 else Inr JNull
      | Entities \<Rightarrow>
          bindE (if nullish data then Inr JUndefined else last_read K data) (\<lambda>l.
          if isArray l then bindE (last_read K data) (\<lambda>l'. get_prop l' 0) else Inr JNull))"

text \<open>
  \<^verbatim>\<open>parseBatch(raw, ep)\<close>. The parameter \<open>jp\<close> stands for \<^verbatim>\<open>JSON.parse\<close>, with \<open>None\<close> for
  the SyntaxError that the \<^verbatim>\<open>catch\<close> turns into the empty result.
\<close>

definition parseBatch_B ::
  "(string \<Rightarrow> jsval option) \<Rightarrow> (jsval \<Rightarrow> string) \<Rightarrow> string \<Rightarrow> Endpoint
     \<Rightarrow> error + string parse_result" where
  "parseBatch_B jp K raw ep =
     (case jp (cleaned raw) of
        None \<Rightarrow> Inr \<lparr>reviews = [], token = JNull\<rparr>
      | Some data \<Rightarrow>
          bindE (blocks_of data) (\<lambda>blocks.
          bindE (parse_blocks_B data blocks) (\<lambda>rs.
          bindE (next_token K data ep) (\<lambda>t.
          Inr \<lparr>reviews = rs, token = t\<rparr>))))"

section \<open>The first variant: fixed positions\<close>

text \<open>\<^verbatim>\<open>if (!author && !s.startsWith('http')) author = s;\<close> (the same for \<^verbatim>\<open>review_text\<close>)\<close>

definition first_text_step :: "string \<Rightarrow> string \<Rightarrow> string" where
  "first_text_step s acc = (if acc = [] \<and> \<not> startsWith s ''http'' then s else acc)"

text \<open>\<^verbatim>\<open>if (s.startsWith('http')) images.push(s);\<close>\<close>

definition push_image :: "string \<Rightarrow> string list \<Rightarrow> string list" where
  "push_image s imgs = (if startsWith s ''http'' then imgs @ [s] else imgs)"

text \<open>\<^verbatim>\<open>[...new Set(images)]\<close>\<close>

definition spread_Set :: "string list \<Rightarrow> string list" where
  "spread_Set xs = foldl set_add [] xs"

text \<open>\<^verbatim>\<open>const ratingRaw = Array.isArray(b?.[2]) ? b[2][0] : b?.[4];\<close>\<close>

definition ratingRaw :: "jsval \<Rightarrow> error + jsval" where
  "ratingRaw b =
     (if isArray (opt_get b 2) then bindE (get_prop b 2) (\<lambda>b2. get_prop b2 0)
      else Inr (opt_get b 4))"

text \<open>\<^verbatim>\<open>let author = ''; walk(b?.[0], s => { if (!author && !s.startsWith('http')) author = s; });\<close>\<close>

definition author_A :: "jsval \<Rightarrow> string" where
  "author_A b = walk (opt_get b 0) first_text_step []"

definition parse_block_A :: "jsval \<Rightarrow> error + jsval review option" where
  "parse_block_A b =
     (if \<not> isArray b then Inr None
      else
        let rid = opt_get (opt_get b 0) 0 in
        if \<not> truthy rid then Inr None
        else
          let a = author_A b in
          bindE (ratingRaw b) (\<lambda>raw.
          bindE (if isString (opt_get b 1) then get_prop b 1 else Inr (JStr [])) (\<lambda>d.
          let txt = walk b first_text_step [];
              imgs = walk b push_image []
          in Inr (Some \<lparr>review_id = rid, author = a,
                         rating = (case raw of JNum n \<Rightarrow> Some n | _ \<Rightarrow> None),
                         review_text = txt,
                         review_date = (case d of JStr t \<Rightarrow> t | _ \<Rightarrow> []),
                         images = take 8 (spread_Set imgs)\<rparr>))))"

fun parse_blocks_A :: "jsval list \<Rightarrow> error + jsval review list" where
  "parse_blocks_A [] = Inr []"
| "parse_blocks_A (b # bs) =
     bindE (parse_block_A b) (\<lambda>r.
     bindE (parse_blocks_A bs) (\<lambda>rs.
     Inr (case r of None \<Rightarrow> rs | Some x \<Rightarrow> x # rs)))"

definition parseBatch_A ::
  "(string \<Rightarrow> jsval option) \<Rightarrow> (jsval \<Rightarrow> string) \<Rightarrow> string \<Rightarrow> Endpoint
     \<Rightarrow> error + jsval parse_result" where
  "parseBatch_A jp K raw ep =
     (case jp (cleaned raw) of
        None \<Rightarrow> Inr \<lparr>reviews = [], token = JNull\<rparr>
      | Some data \<Rightarrow>
          bindE (blocks_of data) (\<lambda>blocks.
          bindE (parse_blocks_A blocks) (\<lambda>rs.
          bindE (next_token K data ep) (\<lambda>t.
          Inr \<lparr>reviews = rs, token = t\<rparr>))))"

section \<open>Token codec\<close>

text \<open>
  \<^verbatim>\<open>encodeURIComponent\<close> keeps the letters, the digits and \<^verbatim>\<open>- _ . ! ~ * ' ( )\<close>, and
  writes every other code unit as the bytes of its UTF-8 encoding, each as \<^verbatim>\<open>%XX\<close>.
\<close>

definition unreserved :: "char \<Rightarrow> bool" where
  "unreserved c = (is_alpha c \<or> is_digit c \<or> c \<in> set (''-_.!~*()'' @ [CHR 0x27]))"

definition hex_char :: "nat \<Rightarrow> char" where
  "hex_char d = (if d < 10 then char_of (48 + d) else char_of (55 + d))"

definition percent :: "nat \<Rightarrow> string" where
  "percent b = [CHR ''%'', hex_char (b div 16), hex_char (b mod 16)]"

definition encode_unit :: "char \<Rightarrow> string" where
  "encode_unit c =
     (if unreserved c then [c]
      else if (of_char c :: nat) < 128 then percent (of_char c)
      else percent (192 + of_char c div 64) @ percent (128 + of_char c mod 64))"

definition encodeURIComponent :: "string \<Rightarrow> string" where
  "encodeURIComponent t = concat (map encode_unit t)"

definition not_bang :: "char \<Rightarrow> bool" where
  "not_bang c = (c \<noteq> CHR ''!'')"

text \<open>
  \<^verbatim>\<open>url.replace(/TAG[^!]*/, (m) => rep)\<close>: the first occurrence of the tag, with the
  longest run of characters other than \<^verbatim>\<open>!\<close> after it, is replaced by \<open>rep\<close>; a url
  without the tag is returned as it is.
\<close>

fun replace_marker :: "string \<Rightarrow> string \<Rightarrow> string \<Rightarrow> string" where
  "replace_marker tag rep [] = []"
| "replace_marker tag rep (c # cs) =
     (if prefix tag (c # cs) then rep @ dropWhile not_bang (drop (length tag) (c # cs))
      else c # replace_marker tag rep cs)"

definition withEntitiesToken :: "string \<Rightarrow> string \<Rightarrow> string" where
  "withEntitiesToken url t = replace_marker ''!3s'' (''!3s'' @ encodeURIComponent t) url"

definition withUgcToken :: "string \<Rightarrow> string \<Rightarrow> string" where
  "withUgcToken url t = replace_marker ''!2s'' (''!2s'' @ encodeURIComponent t) url"

text \<open>
  The parts of a url around its token-bearing segment, which is the match of the marker
  pattern: the text before the first tag, the run after the tag, and the text from the end
  of the run. \<open>None\<close> when the tag does not occur.
\<close>

fun marker_split :: "string \<Rightarrow> string \<Rightarrow> (string \<times> string \<times> string) option" where
  "marker_split tag [] = None"
| "marker_split tag (c # cs) =
     (if prefix tag (c # cs)
      then Some ([], takeWhile not_bang (drop (length tag) (c # cs)),
                 dropWhile not_bang (drop (length tag) (c # cs)))
      else (case marker_split tag cs of
              None \<Rightarrow> None
            | Some (p, sg, q) \<Rightarrow> Some (c # p, sg, q)))"

definition outside_segment :: "string \<Rightarrow> string \<Rightarrow> (string \<times> string) option" where
  "outside_segment tag url =
     (case marker_split tag url of None \<Rightarrow> None | Some (p, sg, q) \<Rightarrow> Some (p, q))"

section \<open>The gateway \<^verbatim>\<open>insertIfNew\<close> of the first variant\<close>

record 'i ReviewRow = "'i review" +
  company :: string
  location :: string
  business_url :: string

text \<open>
  The storage engine is outside the repository. Its model follows the two SQL statements
  that \<^verbatim>\<open>insertIfNew\<close> sends: the table \<^verbatim>\<open>google_reviews\<close> with the primary key
  \<^verbatim>\<open>review_id\<close>, the query
  \<^verbatim>\<open>SELECT review_id FROM google_reviews WHERE review_id = ANY($1)\<close>, and the insertion
  \<^verbatim>\<open>INSERT ... ON CONFLICT (review_id) DO NOTHING\<close>, which skips a row whose key is in the
  table already, be it from an earlier row of the same statement. The state keeps the
  table and the list of the statements received. A statement that the engine rejects
  raises out of \<^verbatim>\<open>insertIfNew\<close> and leaves the table as it is; the model has the
  statements that succeed.
\<close>

datatype statement =
    Select_review_ids "string list"
  | Insert_do_nothing "string ReviewRow list"

record storage =
  table :: "string ReviewRow list"
  received :: "statement list"

definition stored_ids :: "storage \<Rightarrow> string list" where
  "stored_ids db = map review_id (table db)"

definition query_select :: "storage \<Rightarrow> string list \<Rightarrow> string list \<times> storage" where
  "query_select db ids =
     (filter (\<lambda>i. i \<in> set ids) (stored_ids db),
      db\<lparr>received := received db @ [Select_review_ids ids]\<rparr>)"

fun insert_rows :: "string ReviewRow list \<Rightarrow> string ReviewRow list \<Rightarrow> string ReviewRow list" where
  "insert_rows tbl [] = tbl"
| "insert_rows tbl (r # rs) =
     (if review_id r \<in> set (map review_id tbl) then insert_rows tbl rs
      else insert_rows (tbl @ [r]) rs)"

definition query_insert :: "storage \<Rightarrow> string ReviewRow list \<Rightarrow> storage" where
  "query_insert db rows =
     db\<lparr>table := insert_rows (table db) rows,
        received := received db @ [Insert_do_nothing rows]\<rparr>"

definition insertIfNew :: "storage \<Rightarrow> string ReviewRow list \<Rightarrow> storage" where
  "insertIfNew db rows =
     (if rows = [] then db
      else
        let ids = map review_id rows;
            res = query_select db ids;
            existing = set (fst res);
            fresh = filter (\<lambda>r. review_id r \<notin> existing) rows
        in if fresh = [] then snd res
           else query_insert (snd res) fresh)"

text \<open>The insertions among the statements received.\<close>

fun insertions :: "statement list \<Rightarrow> string ReviewRow list list" where
  "insertions [] = []"
| "insertions (Select_review_ids ids # qs) = insertions qs"
| "insertions (Insert_do_nothing rows # qs) = rows # insertions qs"

section \<open>\<^verbatim>\<open>JSON.parse\<close>\<close>

text \<open>
  \<^verbatim>\<open>JSON.parse\<close> is built into the language. \<open>JSON_parse\<close> follows the grammar of JSON
  (ECMA-404): white space is space, tab, line feed and carriage return; a value is an
  object, an array, a string, a number or one of \<^verbatim>\<open>true\<close>, \<^verbatim>\<open>false\<close>, \<^verbatim>\<open>null\<close>; nothing
  but white space may follow the value. \<open>None\<close> is the SyntaxError.

  Two points where it is narrower than the built-in function: a number keeps the exact
  value of its literal, where the language rounds it to a double; and an escape
  \<^verbatim>\<open>\uXXXX\<close> above 00FF denotes a code unit outside the strings of the model and is
  refused. The general theorems below hold for any function in the place of
  \<^verbatim>\<open>JSON.parse\<close>; \<open>JSON_parse\<close> is used to run \<open>parseBatch\<close> on concrete payloads.
\<close>

definition json_ws :: "char \<Rightarrow> bool" where
  "json_ws c = (of_char c \<in> {9, 10, 13, 32 :: nat})"

definition skip_ws :: "string \<Rightarrow> string" where
  "skip_ws s = dropWhile json_ws s"

definition hex_digit :: "char \<Rightarrow> nat option" where
  "hex_digit c =
     (let n = (of_char c :: nat)
      in if 48 \<le> n \<and> n \<le> 57 then Some (n - 48)
         else if 65 \<le> n \<and> n \<le> 70 then Some (n - 55)
         else if 97 \<le> n \<and> n \<le> 102 then Some (n - 87)
         else None)"

definition hex4 :: "char \<Rightarrow> char \<Rightarrow> char \<Rightarrow> char \<Rightarrow> nat option" where
  "hex4 a b c d =
     (case (hex_digit a, hex_digit b, hex_digit c, hex_digit d) of
        (Some w, Some x, Some y, Some z) \<Rightarrow> Some (4096 * w + 256 * x + 16 * y + z)
      | _ \<Rightarrow> None)"

definition simple_escape :: "char \<Rightarrow> char option" where
  "simple_escape e =
     (if e = CHR 0x22 then Some (CHR 0x22)
      else if e = CHR 0x5C then Some (CHR 0x5C)
      else if e = CHR ''/'' then Some (CHR ''/'')
      else if e = CHR ''b'' then Some (CHR 0x08)
      else if e = CHR ''f'' then Some (CHR 0x0C)
      else if e = CHR ''n'' then Some (CHR 0x0A)
      else if e = CHR ''r'' then Some (CHR 0x0D)
      else if e = CHR ''t'' then Some (CHR 0x09)
      else None)"

text \<open>The escape after a backslash: the code unit it denotes and the rest of the text.\<close>

definition lex_escape :: "string \<Rightarrow> (char \<times> string) option" where
  "lex_escape cs =
     (case cs of
        [] \<Rightarrow> None
      | e # r \<Rightarrow>
          (case simple_escape e of
             Some d \<Rightarrow> Some (d, r)
           | None \<Rightarrow>
               if e = CHR ''u'' then
                 (case r of
                    h1 # h2 # h3 # h4 # r' \<Rightarrow>
                      (case hex4 h1 h2 h3 h4 of
                         Some n \<Rightarrow> if n < 256 then Some (char_of n, r') else None
                       | None \<Rightarrow> None)
                  | _ \<Rightarrow> None)
               else None))"

lemma lex_escape_length: "lex_escape cs = Some (d, r) \<Longrightarrow> length r < length cs"
  unfolding lex_escape_def
  by (cases cs) (auto split: option.splits if_splits list.splits)

function lex_string :: "string \<Rightarrow> string \<Rightarrow> (string \<times> string) option" where
  "lex_string acc [] = None"
| "lex_string acc (c # cs) =
     (if c = CHR 0x22 then Some (rev acc, cs)
      else if c = CHR 0x5C then
        (case lex_escape cs of
           None \<Rightarrow> None
         | Some (d, r) \<Rightarrow> lex_string (d # acc) r)
      else if (of_char c :: nat) < 32 then None
      else lex_string (c # acc) cs)"
  by pat_completeness auto
termination
  by (relation "measure (\<lambda>(acc, s). length s)") (auto dest: lex_escape_length)

definition digits_val :: "string \<Rightarrow> nat" where
  "digits_val ds = foldl (\<lambda>a c. 10 * a + (of_char c - 48)) 0 ds"

text \<open>The optional fraction: its digits and the rest of the text.\<close>

definition lex_frac :: "string \<Rightarrow> (string \<times> string) option" where
  "lex_frac s =
     (case s of
        [] \<Rightarrow> Some ([], [])
      | c # r \<Rightarrow>
          if c = CHR ''.'' then
            (if takeWhile is_digit r = [] then None
             else Some (takeWhile is_digit r, dropWhile is_digit r))
          else Some ([], s))"

text \<open>An optional character of the class \<open>P\<close>: whether it is there, and the rest of the text.\<close>

definition eat :: "(char \<Rightarrow> bool) \<Rightarrow> string \<Rightarrow> bool \<times> string" where
  "eat P s = (case s of [] \<Rightarrow> (False, []) | c # r \<Rightarrow> if P c then (True, r) else (False, s))"

definition is_minus :: "char \<Rightarrow> bool" where
  "is_minus c = (c = CHR ''-'')"

definition is_sign :: "char \<Rightarrow> bool" where
  "is_sign c = (c = CHR ''-'' \<or> c = CHR ''+'')"

text \<open>The optional exponent: its value and the rest of the text.\<close>

definition lex_exp :: "string \<Rightarrow> (int \<times> string) option" where
  "lex_exp s =
     (case s of
        [] \<Rightarrow> Some (0, [])
      | c # r \<Rightarrow>
          if c = CHR ''e'' \<or> c = CHR ''E'' then
            (let ds = takeWhile is_digit (snd (eat is_sign r))
             in if ds = [] then None
                else Some (if fst (eat is_minus r) then - int (digits_val ds)
                           else int (digits_val ds),
                           dropWhile is_digit (snd (eat is_sign r))))
          else Some (0, s))"

text \<open>The value of the literal with integer digits \<open>ip\<close>, fraction digits \<open>fp\<close> and exponent \<open>e\<close>.\<close>

definition decimal_value :: "string \<Rightarrow> string \<Rightarrow> int \<Rightarrow> rat" where
  "decimal_value ip fp e =
     (let m = (of_nat (digits_val ip) + of_nat (digits_val fp) / 10 ^ length fp :: rat)
      in if e < 0 then m / 10 ^ nat (- e) else m * 10 ^ nat e)"

definition lex_number :: "string \<Rightarrow> (jsnum \<times> string) option" where
  "lex_number s =
     (let neg = fst (eat is_minus s);
          s1 = snd (eat is_minus s);
          ip = takeWhile is_digit s1
      in if ip = [] \<or> (1 < length ip \<and> hd ip = CHR ''0'') then None
         else
           (case lex_frac (dropWhile is_digit s1) of
              None \<Rightarrow> None
            | Some (fp, s3) \<Rightarrow>
                (case lex_exp s3 of
                   None \<Rightarrow> None
                 | Some (e, s6) \<Rightarrow>
                     Some (Fin (if neg then - decimal_value ip fp e else decimal_value ip fp e),
                           s6))))"

lemma length_skip_ws: "length (skip_ws s) \<le> length s"
  by (simp add: skip_ws_def length_dropWhile_le)

lemma skip_ws_Cons_length: "skip_ws s = c # cs \<Longrightarrow> length cs < length s"
  using length_skip_ws [of s] by simp

function parse_value :: "string \<Rightarrow> (jsval \<times> string) option"
  and parse_elements :: "jsval list \<Rightarrow> string \<Rightarrow> (jsval \<times> string) option"
  and parse_members :: "(string \<times> jsval) list \<Rightarrow> string \<Rightarrow> (jsval \<times> string) option"
where
  "parse_value s =
     (case skip_ws s of
        [] \<Rightarrow> None
      | c # cs \<Rightarrow>
          if c = CHR ''['' then
            (case skip_ws cs of
               [] \<Rightarrow> None
             | d # ds \<Rightarrow> if d = CHR '']'' then Some (JArr [], ds) else parse_elements [] cs)
          else if c = CHR ''{'' then
            (case skip_ws cs of
               [] \<Rightarrow> None
             | d # ds \<Rightarrow> if d = CHR ''}'' then Some (JObj [], ds) else parse_members [] cs)
          else if c = CHR 0x22 then
            (case lex_string [] cs of None \<Rightarrow> None | Some (t, r) \<Rightarrow> Some (JStr t, r))
          else if prefix ''true'' (c # cs) then Some (JBool True, drop 3 cs)
          else if prefix ''false'' (c # cs) then Some (JBool False, drop 4 cs)
          else if prefix ''null'' (c # cs) then Some (JNull, drop 3 cs)
          else (case lex_number (c # cs) of None \<Rightarrow> None | Some (n, r) \<Rightarrow> Some (JNum n, r)))"
| "parse_elements acc s =
     (case parse_value s of
        None \<Rightarrow> None
      | Some (v, r) \<Rightarrow>
          if length r < length s then
            (case skip_ws r of
               [] \<Rightarrow> None
             | d # ds \<Rightarrow>
                 if d = CHR '','' then parse_elements (acc @ [v]) ds
                 else if d = CHR '']'' then Some (JArr (acc @ [v]), ds)
                 else None)
          else None)"
| "parse_members acc s =
     (case skip_ws s of
        [] \<Rightarrow> None
      | q # cs \<Rightarrow>
          if q \<noteq> CHR 0x22 then None
          else
            (case lex_string [] cs of
               None \<Rightarrow> None
             | Some (k, r1) \<Rightarrow>
                 (case skip_ws r1 of
                    [] \<Rightarrow> None
                  | col # r2 \<Rightarrow>
                      if col = CHR '':'' \<and> length r2 < length s then
                        (case parse_value r2 of
                           None \<Rightarrow> None
                         | Some (v, r3) \<Rightarrow>
                             if length r3 < length r2 then
                               (case skip_ws r3 of
                                  [] \<Rightarrow> None
                                | d # ds \<Rightarrow>
                                    if d = CHR '','' then parse_members (acc @ [(k, v)]) ds
                                    else if d = CHR ''}'' then Some (JObj (acc @ [(k, v)]), ds)
                                    else None)
                             else None)
                      else None)))"
  by pat_completeness auto

termination
  apply (relation "measure (\<lambda>x. case x of
            Inl s \<Rightarrow> 2 * length s
          | Inr (Inl (acc, s)) \<Rightarrow> 2 * length s + 1
          | Inr (Inr (acc, s)) \<Rightarrow> 2 * length s + 1)")
  apply (auto dest!: skip_ws_Cons_length)
  done

declare parse_value.simps [simp del] parse_elements.simps [simp del] parse_members.simps [simp del]

definition JSON_parse :: "string \<Rightarrow> jsval option" where
  "JSON_parse s =
     (case parse_value s of
        None \<Rightarrow> None
      | Some (v, r) \<Rightarrow> if skip_ws r = [] then Some v else None)"

section \<open>Notions used to state the properties\<close>

text \<open>
  An instance of the key function \<open>K\<close> of \<open>last_read\<close>, for running \<open>parseBatch\<close> on
  payloads whose top level is not an object: there the key function is not consulted.
\<close>

definition key_unused :: "jsval \<Rightarrow> string" where
  "key_unused v = []"

text \<open>Some string leaf of the block contains the reply-link marker.\<close>

definition has_reply_marker :: "jsval \<Rightarrow> bool" where
  "has_reply_marker block = list_ex (\<lambda>s. str_includes s reply_marker) (string_leaves block)"

text \<open>The test of the rating callback: an integer from 1 to 5.\<close>

definition star :: "jsnum \<Rightarrow> bool" where
  "star n = (isInteger n \<and> num_between 1 5 n)"

text \<open>The members of a list in the order of their first occurrence.\<close>

function first_occurrences :: "string list \<Rightarrow> string list" where
  "first_occurrences [] = []"
| "first_occurrences (x # xs) = x # first_occurrences (filter (\<lambda>y. y \<noteq> x) xs)"
  by pat_completeness auto
termination
  by (relation "measure length") (auto simp: le_imp_less_Suc)

text \<open>The image URLs of a block, as both variants select them.\<close>

definition http_leaves :: "jsval \<Rightarrow> string list" where
  "http_leaves b = filter (\<lambda>s. startsWith s ''http'') (string_leaves b)"

text \<open>
  The author as the specification describes it: the string at the fixed path
  \<^verbatim>\<open>b[0][1][4][5][0]\<close> when it is there, otherwise the first string leaf of \<^verbatim>\<open>b[0]\<close>
  that does not look like a URL (\<^verbatim>\<open>isUrlLike\<close> of the second variant), otherwise the
  empty string.
\<close>

definition isUrlLike :: "string \<Rightarrow> bool" where
  "isUrlLike s = (startsWith s ''http'' \<or> startsWith s ''/local/'')"

definition author_spec :: "jsval \<Rightarrow> string" where
  "author_spec b =
     (case opt_get (opt_get (opt_get (opt_get b 0) 1) 4) 5 of
        JArr (JStr s # xs) \<Rightarrow> s
      | _ \<Rightarrow>
          (case List.find (\<lambda>s. \<not> isUrlLike s) (string_leaves (opt_get b 0)) of
             Some s \<Rightarrow> s
           | None \<Rightarrow> []))"

text \<open>Payloads on which the properties are run.\<close>

definition payload_two_numbers :: string where
  "payload_two_numbers = ''[null,null,[[[\"id\",3],\"d\",[5]]]]''"

definition payload_ten_urls :: string where
  "payload_ten_urls = ''[null,null,[[[\"id\"],\"http1\",\"http2\",\"http1\",\"http3\",\"http4\",\"http5\",\"http6\",\"http7\",\"http8\",\"http9\"]]]''"

definition payload_spec_scenario :: string where
  "payload_spec_scenario = XSSI @ ''[,,[[\"a\"],\"2024\",[1],[\"hi\"],[\"http://img/1.png\"]]],null]''"

definition payload_scenario_wellformed :: string where
  "payload_scenario_wellformed =
     XSSI @ ''[null,null,[[[\"a\"],\"2024\",[1],[\"hi\"],[\"http://img/1.png\"]]],null]''"

definition payload_length_object :: string where
  "payload_length_object = ''{\"length\":{\"toString\":0}}''"

definition block_id_name :: jsval where
  "block_id_name = JArr [JArr [JStr ''id'', JStr ''Bob'']]"

definition block_with_author_path :: jsval where
  "block_with_author_path =
     JArr [JArr [JStr ''id'',
                 JArr [JNull, JNull, JNull, JNull,
                       JArr [JNull, JNull, JNull, JNull, JNull, JArr [JStr ''Alice'']]]]]"

text \<open>Rows on which the gateway is run.\<close>

definition example_row :: "string ReviewRow" where
  "example_row = \<lparr>review_id = ''r1'', author = ''Ann'', rating = Some (Fin 5), review_text = ''ok'',
      review_date = ''Jan 2024'', images = [], company = ''Acme'', location = ''Downtown'',
      business_url = ''https://maps.example/acme''\<rparr>"

definition example_row_2 :: "string ReviewRow" where
  "example_row_2 = \<lparr>review_id = ''r2'', author = ''Bob'', rating = None, review_text = [],
      review_date = [], images = [], company = ''Acme'', location = ''Downtown'',
      business_url = ''https://maps.example/acme''\<rparr>"

section \<open>Basic facts\<close>

lemma bindE_Inr [simp]: "bindE (Inr x) f = f x"
  by (simp add: bindE_def)

lemma bindE_Inl [simp]: "bindE (Inl e) f = Inl e"
  by (simp add: bindE_def)

lemma leaf_strings_append: "leaf_strings (xs @ ys) = leaf_strings xs @ leaf_strings ys"
  by (induction xs rule: leaf_strings.induct) simp_all

lemma leaf_numbers_append: "leaf_numbers (xs @ ys) = leaf_numbers xs @ leaf_numbers ys"
  by (induction xs rule: leaf_numbers.induct) simp_all

text \<open>Both walkers call back at the leaves, in the order of \<open>leaves\<close>.\<close>

lemma walkDeep_fold:
  "walkDeep v f g st = fold (leaf_step f g) (leaves v) st"
  "walkDeep_forEach vs f g st = fold (leaf_step f g) (leaves_list vs) st"
  by (induction v f g st and vs f g st rule: walkDeep_walkDeep_forEach.induct)
     (simp_all add: leaf_step_def)

lemma walk_fold:
  "walk v f st = fold f (string_leaves v) st"
  "walk_forEach vs f st = fold f (leaf_strings (leaves_list vs)) st"
  by (induction v f st and vs f st rule: walk_walk_forEach.induct)
     (simp_all add: string_leaves_def leaf_strings_append)

section \<open>The length comparisons of the parser\<close>

text \<open>
  The comparisons of lengths in \<open>parse_elements\<close> and \<open>parse_members\<close> make the recursion
  terminate. They never fail: every parser returns less text than it was given, so both
  functions satisfy their equations without the comparisons.
\<close>

lemma lex_string_length: "lex_string acc s = Some (t, r) \<Longrightarrow> length r < length s"
proof (induction acc s rule: lex_string.induct)
  case (1 acc)
  then show ?case by simp
next
  case (2 acc c cs)
  consider (quote) "c = CHR 0x22"
    | (esc) "c \<noteq> CHR 0x22" "c = CHR 0x5C"
    | (plain) "c \<noteq> CHR 0x22" "c \<noteq> CHR 0x5C"
    by blast
  then show ?case
  proof cases
    case quote
    with 2(3) show ?thesis by simp
  next
    case esc
    with 2(3) obtain d r0 where e: "lex_escape cs = Some (d, r0)"
      and rec: "lex_string (d # acc) r0 = Some (t, r)"
      by (cases "lex_escape cs") auto
    from 2(1) [OF esc e refl rec] have "length r < length r0" .
    with lex_escape_length [OF e] show ?thesis by simp
  next
    case plain
    with 2(3) have c: "\<not> (of_char c :: nat) < 32" and rec: "lex_string (c # acc) cs = Some (t, r)"
      by (auto split: if_splits)
    from 2(2) [OF plain c rec] show ?thesis by simp
  qed
qed

lemma dropWhile_shorter: "takeWhile P xs \<noteq> [] \<Longrightarrow> length (dropWhile P xs) < length xs"
  by (cases xs) (auto simp: le_imp_less_Suc length_dropWhile_le split: if_splits)

lemma eat_length: "length (snd (eat P s)) \<le> length s"
  by (cases s) (simp_all add: eat_def)

lemma lex_frac_length: "lex_frac s = Some (fp, r) \<Longrightarrow> length r \<le> length s"
  unfolding lex_frac_def
  by (cases s) (auto simp: le_SucI length_dropWhile_le split: if_splits)

lemma lex_exp_length:
  assumes "lex_exp s = Some (e, r)"
  shows "length r \<le> length s"
proof (cases s)
  case Nil
  with assms show ?thesis by (simp add: lex_exp_def)
next
  case (Cons c t)
  with assms have "r = s \<or> r = dropWhile is_digit (snd (eat is_sign t))"
    unfolding lex_exp_def Let_def by (auto split: if_splits)
  then show ?thesis
    using length_dropWhile_le [of is_digit "snd (eat is_sign t)"] eat_length [of is_sign t] Cons
    by auto
qed

lemma lex_number_length:
  assumes "lex_number s = Some (n, r)"
  shows "length r < length s"
proof -
  define s1 where "s1 = snd (eat is_minus s)"
  from assms have ip: "takeWhile is_digit s1 \<noteq> []"
    unfolding lex_number_def Let_def s1_def by (auto split: if_splits)
  from assms ip obtain fp s3 where f: "lex_frac (dropWhile is_digit s1) = Some (fp, s3)"
    unfolding lex_number_def Let_def s1_def
    by (cases "lex_frac (dropWhile is_digit (snd (eat is_minus s)))") (auto split: if_splits)
  from assms ip f obtain e where x: "lex_exp s3 = Some (e, r)"
    unfolding lex_number_def Let_def s1_def
    by (cases "lex_exp s3") (auto split: if_splits)
  have "length s1 \<le> length s" unfolding s1_def by (rule eat_length)
  moreover have "length (dropWhile is_digit s1) < length s1" using ip by (rule dropWhile_shorter)
  moreover note lex_frac_length [OF f] lex_exp_length [OF x]
  ultimately show ?thesis by simp
qed

lemma parse_shrinks:
  "(\<forall>v r. parse_value s = Some (v, r) \<longrightarrow> length r < length s)"
  "(\<forall>v r. parse_elements acc s = Some (v, r) \<longrightarrow> length r < length s)"
  "(\<forall>v r. parse_members macc s = Some (v, r) \<longrightarrow> length r < length s)"
proof (induction s and acc s and macc s rule: parse_value_parse_elements_parse_members.induct)
  case (1 s)
  show ?case
  proof (intro allI impI)
    fix v r assume a0: "parse_value s = Some (v, r)"
    then have a: "(case skip_ws s of
        [] \<Rightarrow> None
      | c # cs \<Rightarrow>
          if c = CHR ''['' then
            (case skip_ws cs of
               [] \<Rightarrow> None
             | d # ds \<Rightarrow> if d = CHR '']'' then Some (JArr [], ds) else parse_elements [] cs)
          else if c = CHR ''{'' then
            (case skip_ws cs of
               [] \<Rightarrow> None
             | d # ds \<Rightarrow> if d = CHR ''}'' then Some (JObj [], ds) else parse_members [] cs)
          else if c = CHR 0x22 then
            (case lex_string [] cs of None \<Rightarrow> None | Some (t, r) \<Rightarrow> Some (JStr t, r))
          else if prefix ''true'' (c # cs) then Some (JBool True, drop 3 cs)
          else if prefix ''false'' (c # cs) then Some (JBool False, drop 4 cs)
          else if prefix ''null'' (c # cs) then Some (JNull, drop 3 cs)
          else (case lex_number (c # cs) of None \<Rightarrow> None | Some (n, r) \<Rightarrow> Some (JNum n, r))) = Some (v, r)"
      by (simp only: parse_value.simps [of s])
    then obtain c cs where sk: "skip_ws s = c # cs"
      by (cases "skip_ws s") (simp_all split: list.splits)
    have cs: "length cs < length s" using sk by (rule skip_ws_Cons_length)
    consider (arr) "c = CHR ''[''" | (obj) "c \<noteq> CHR ''[''" "c = CHR ''{''"
      | (other) "c \<noteq> CHR ''[''" "c \<noteq> CHR ''{''" by blast
    then show "length r < length s"
    proof cases
      case arr
      from a sk arr obtain d ds where sk2: "skip_ws cs = d # ds"
        by (cases "skip_ws cs") simp_all
      have ds: "length ds < length cs" using sk2 by (rule skip_ws_Cons_length)
      show ?thesis
      proof (cases "d = CHR '']''")
        case True
        with a sk arr sk2 have "r = ds" by simp
        with ds cs show ?thesis by simp
      next
        case False
        with a sk arr sk2 have "parse_elements [] cs = Some (v, r)" by simp
        with 1(1) [OF sk arr sk2 False] have "length r < length cs" by blast
        with cs show ?thesis by simp
      qed
    next
      case obj
      from a sk obj obtain d ds where sk2: "skip_ws cs = d # ds"
        by (cases "skip_ws cs") simp_all
      have ds: "length ds < length cs" using sk2 by (rule skip_ws_Cons_length)
      show ?thesis
      proof (cases "d = CHR ''}''")
        case True
        with a sk obj sk2 have "r = ds" by simp
        with ds cs show ?thesis by simp
      next
        case False
        with a sk obj sk2 have "parse_members [] cs = Some (v, r)" by simp
        with 1(2) [OF sk obj sk2 False] have "length r < length cs" by blast
        with cs show ?thesis by simp
      qed
    next
      case other
      have le: "length (c # cs) \<le> length s" using cs by simp
      from a sk other have
        "(\<exists>t. lex_string [] cs = Some (t, r))
         \<or> r = drop 3 cs \<or> r = drop 4 cs
         \<or> (\<exists>n. lex_number (c # cs) = Some (n, r))"
        by (auto split: if_splits option.splits)
      then show ?thesis
        using cs le by (auto dest!: lex_string_length lex_number_length)
    qed
  qed
next
  case (2 acc s)
  show ?case
  proof (intro allI impI)
    fix v r assume a0: "parse_elements acc s = Some (v, r)"
    then have a: "(case parse_value s of
        None \<Rightarrow> None
      | Some (v, r) \<Rightarrow>
          if length r < length s then
            (case skip_ws r of
               [] \<Rightarrow> None
             | d # ds \<Rightarrow>
                 if d = CHR '','' then parse_elements (acc @ [v]) ds
                 else if d = CHR '']'' then Some (JArr (acc @ [v]), ds)
                 else None)
          else None) = Some (v, r)"
      by (simp only: parse_elements.simps [of acc s])
    then obtain v0 r0 where pv: "parse_value s = Some (v0, r0)"
      by (cases "parse_value s") auto
    with a have lt: "length r0 < length s" by (simp split: if_splits)
    from a pv lt obtain d ds where sk: "skip_ws r0 = d # ds"
      by (cases "skip_ws r0") simp_all
    have ds: "length ds < length r0" using sk by (rule skip_ws_Cons_length)
    show "length r < length s"
    proof (cases "d = CHR '',''")
      case True
      with a pv lt sk have "parse_elements (acc @ [v0]) ds = Some (v, r)" by simp
      with 2(2) [OF pv refl lt sk True] have "length r < length ds" by blast
      with ds lt show ?thesis by simp
    next
      case False
      with a pv lt sk have "r = ds" by (simp split: if_splits)
      with ds lt show ?thesis by simp
    qed
  qed
next
  case (3 macc s)
  show ?case
  proof (intro allI impI)
    fix v r assume a0: "parse_members macc s = Some (v, r)"
    then have a: "(case skip_ws s of
        [] \<Rightarrow> None
      | q # cs \<Rightarrow>
          if q \<noteq> CHR 0x22 then None
          else
            (case lex_string [] cs of
               None \<Rightarrow> None
             | Some (k, r1) \<Rightarrow>
                 (case skip_ws r1 of
                    [] \<Rightarrow> None
                  | col # r2 \<Rightarrow>
                      if col = CHR '':'' \<and> length r2 < length s then
                        (case parse_value r2 of
                           None \<Rightarrow> None
                         | Some (v, r3) \<Rightarrow>
                             if length r3 < length r2 then
                               (case skip_ws r3 of
                                  [] \<Rightarrow> None
                                | d # ds \<Rightarrow>
                                    if d = CHR '','' then parse_members (macc @ [(k, v)]) ds
                                    else if d = CHR ''}'' then Some (JObj (macc @ [(k, v)]), ds)
                                    else None)
                             else None)
                      else None))) = Some (v, r)"
      by (simp only: parse_members.simps [of macc s])
    then obtain q cs where sk: "skip_ws s = q # cs"
      by (cases "skip_ws s") simp_all
    from a sk have q: "\<not> q \<noteq> CHR 0x22" by (simp split: if_splits)
    from a sk q obtain k r1 where ls: "lex_string [] cs = Some (k, r1)"
      by (cases "lex_string [] cs") auto
    from a sk q ls obtain col r2 where sk1: "skip_ws r1 = col # r2"
      by (cases "skip_ws r1") simp_all
    from a sk q ls sk1 have col: "col = CHR '':'' \<and> length r2 < length s"
      by (simp split: if_splits)
    from a sk q ls sk1 col obtain v0 r3 where pv: "parse_value r2 = Some (v0, r3)"
      by (cases "parse_value r2") auto
    from a sk q ls sk1 col pv have lt: "length r3 < length r2" by (simp split: if_splits)
    from a sk q ls sk1 col pv lt obtain d ds where sk3: "skip_ws r3 = d # ds"
      by (cases "skip_ws r3") simp_all
    have ds: "length ds < length r3" using sk3 by (rule skip_ws_Cons_length)
    show "length r < length s"
    proof (cases "d = CHR '',''")
      case True
      with a sk q ls sk1 col pv lt sk3
      have "parse_members (macc @ [(k, v0)]) ds = Some (v, r)" by simp
      with 3(2) [OF sk q ls refl sk1 col pv refl lt sk3 True] have "length r < length ds" by blast
      with ds lt col show ?thesis by simp
    next
      case False
      with a sk q ls sk1 col pv lt sk3 have "r = ds" by (simp split: if_splits)
      with ds lt col show ?thesis by simp
    qed
  qed
qed

lemma parse_elements_unguarded:
  "parse_elements acc s =
     (case parse_value s of
        None \<Rightarrow> None
      | Some (v, r) \<Rightarrow>
          (case skip_ws r of
             [] \<Rightarrow> None
           | d # ds \<Rightarrow>
               if d = CHR '','' then parse_elements (acc @ [v]) ds
               else if d = CHR '']'' then Some (JArr (acc @ [v]), ds)
               else None))"
proof (cases "parse_value s")
  case None
  then show ?thesis by (subst parse_elements.simps) simp
next
  case (Some p)
  obtain v r where p: "p = (v, r)" by (cases p)
  with Some parse_shrinks(1) [of s] have "length r < length s" by blast
  with Some p show ?thesis by (subst parse_elements.simps) simp
qed

lemma parse_members_unguarded:
  "parse_members acc s =
     (case skip_ws s of
        [] \<Rightarrow> None
      | q # cs \<Rightarrow>
          if q \<noteq> CHR 0x22 then None
          else
            (case lex_string [] cs of
               None \<Rightarrow> None
             | Some (k, r1) \<Rightarrow>
                 (case skip_ws r1 of
                    [] \<Rightarrow> None
                  | col # r2 \<Rightarrow>
                      if col = CHR '':'' then
                        (case parse_value r2 of
                           None \<Rightarrow> None
                         | Some (v, r3) \<Rightarrow>
                             (case skip_ws r3 of
                                [] \<Rightarrow> None
                              | d # ds \<Rightarrow>
                                  if d = CHR '','' then parse_members (acc @ [(k, v)]) ds
                                  else if d = CHR ''}'' then Some (JObj (acc @ [(k, v)]), ds)
                                  else None))
                      else None)))"
proof -
  have 1: "length r2 < length s"
    if "skip_ws s = q # cs" "lex_string [] cs = Some (k, r1)" "skip_ws r1 = col # r2"
    for q cs k r1 col r2
    using that skip_ws_Cons_length [of s q cs] lex_string_length [of "[]" cs k r1]
      skip_ws_Cons_length [of r1 col r2] by simp
  have 2: "length r3 < length r2" if "parse_value r2 = Some (v, r3)" for r2 v r3
    using that parse_shrinks(1) [of r2] by blast
  show ?thesis
    by (subst parse_members.simps)
       (auto split: list.splits option.splits simp: 1 2)
qed

section \<open>Parse failure\<close>

text \<open>
  C3. When the text that remains after the security prefix is stripped (and the white
  space trimmed) does not parse as JSON, \<open>parseBatch\<close> returns the empty list of reviews
  with the token \<^verbatim>\<open>null\<close>, and does not raise. This holds in both variants.
\<close>

theorem parse_failure_empty_result:
  "jp (cleaned raw) = None \<Longrightarrow>
     parseBatch_B jp K raw ep = Inr \<lparr>reviews = [], token = JNull\<rparr>
   \<and> parseBatch_A jp K raw ep = Inr \<lparr>reviews = [], token = JNull\<rparr>"
  by (simp add: parseBatch_B_def parseBatch_A_def)

theorem parse_failure_empty_result_witness:
  "JSON_parse (cleaned (XSSI @ ''not json'')) = None
   \<and> parseBatch_B JSON_parse key_unused (XSSI @ ''not json'') Entities
       = Inr \<lparr>reviews = [], token = JNull\<rparr>
   \<and> parseBatch_A JSON_parse key_unused (XSSI @ ''not json'') Entities
       = Inr \<lparr>reviews = [], token = JNull\<rparr>"
proof -
  have h: "JSON_parse (cleaned (XSSI @ ''not json'')) = None" by code_simp
  show ?thesis
    using h parse_failure_empty_result
      [where jp = JSON_parse and raw = "XSSI @ ''not json''" and K = key_unused and ep = Entities]
    by simp
qed

section \<open>The security prefix\<close>

text \<open>
  C8. For a payload \<open>s\<close> that does not begin with the security prefix, \<open>parseBatch\<close>
  returns on \<open>s\<close> what it returns on \<open>s\<close> with the prefix prepended, in both variants;
  stripping the prefixed payload gives \<open>s\<close> back, and stripping \<open>s\<close> changes nothing.
\<close>

theorem prefix_strip_same_result:
  "\<not> prefix XSSI s \<Longrightarrow>
     parseBatch_B jp K s ep = parseBatch_B jp K (XSSI @ s) ep
   \<and> parseBatch_A jp K s ep = parseBatch_A jp K (XSSI @ s) ep
   \<and> strip_XSSI (XSSI @ s) = s \<and> strip_XSSI s = s"
  by (simp add: parseBatch_B_def parseBatch_A_def cleaned_def strip_XSSI_def)

theorem prefix_strip_same_result_witness:
  "\<not> prefix XSSI ''[]''
   \<and> parseBatch_B JSON_parse key_unused ''[]'' Ugc
       = parseBatch_B JSON_parse key_unused (XSSI @ ''[]'') Ugc
   \<and> parseBatch_A JSON_parse key_unused ''[]'' Ugc
       = parseBatch_A JSON_parse key_unused (XSSI @ ''[]'') Ugc
   \<and> strip_XSSI (XSSI @ ''[]'') = ''[]'' \<and> strip_XSSI ''[]'' = ''[]''"
proof -
  have h: "\<not> prefix XSSI ''[]''" by (simp add: XSSI_def)
  show ?thesis
    using h prefix_strip_same_result
      [where s = "''[]''" and jp = JSON_parse and K = key_unused and ep = Ugc]
    by simp
qed

section \<open>Reads behind a test\<close>

lemma opt_get_nullish: "nullish v \<Longrightarrow> opt_get v i = JUndefined"
  by (simp add: opt_get_def)

lemma not_nullish_opt_get: "\<not> nullish (opt_get v i) \<Longrightarrow> \<not> nullish v"
  by (auto simp: opt_get_def)

lemma isArray_not_nullish: "isArray v \<Longrightarrow> \<not> nullish v"
  by (cases v) simp_all

lemma isString_not_nullish: "isString v \<Longrightarrow> \<not> nullish v"
  by (cases v) simp_all

lemma get_prop_opt_get: "\<not> nullish v \<Longrightarrow> get_prop v i = Inr (opt_get v i)"
  by (simp add: get_prop_def opt_get_def)

lemma path_0145_guarded:
  assumes "isArray (opt_get (opt_get (opt_get (opt_get b 0) 1) 4) 5)"
  shows "path_0145 b = Inr (opt_get (opt_get (opt_get (opt_get b 0) 1) 4) 5)"
proof -
  from assms have n4: "\<not> nullish (opt_get (opt_get (opt_get b 0) 1) 4)"
    by (auto dest: isArray_not_nullish not_nullish_opt_get)
  then have n1: "\<not> nullish (opt_get (opt_get b 0) 1)" by (rule not_nullish_opt_get)
  then have n0: "\<not> nullish (opt_get b 0)" by (rule not_nullish_opt_get)
  then have nb: "\<not> nullish b" by (rule not_nullish_opt_get)
  show ?thesis
    using nb n0 n1 n4 by (simp add: path_0145_def get_prop_opt_get)
qed

lemma author_B_value:
  "author_B b =
     Inr (case opt_get (opt_get (opt_get (opt_get b 0) 1) 4) 5 of
            JArr (JStr s # xs) \<Rightarrow> s
          | _ \<Rightarrow> [])"
proof (cases "isArray (opt_get (opt_get (opt_get (opt_get b 0) 1) 4) 5)")
  case False
  then show ?thesis
    by (cases "opt_get (opt_get (opt_get (opt_get b 0) 1) 4) 5") (simp_all add: author_B_def)
next
  case True
  then obtain xs where p: "opt_get (opt_get (opt_get (opt_get b 0) 1) 4) 5 = JArr xs"
    by (cases "opt_get (opt_get (opt_get (opt_get b 0) 1) 4) 5") simp_all
  have "author_B b = bindE (get_prop (JArr xs) 0) (\<lambda>a. case a of JStr s \<Rightarrow> Inr s | _ \<Rightarrow> Inr [])"
    using True p path_0145_guarded [OF True] by (simp add: author_B_def)
  also have "\<dots> = Inr (case JArr xs of JArr (JStr s # ys) \<Rightarrow> s | _ \<Rightarrow> [])"
    by (cases xs) (auto simp: get_prop_def split: jsval.splits)
  finally show ?thesis using p by simp
qed

section \<open>The review identifier\<close>

lemma fold_postId_step_None:
  "\<not> list_ex (\<lambda>s. str_includes s reply_marker) (leaf_strings ls) \<Longrightarrow>
   fold (leaf_step postId_step (\<lambda>n p. p)) ls p = p"
  by (induction ls arbitrary: p rule: leaf_strings.induct)
     (simp_all add: leaf_step_def postId_step_def)

lemma walk_postId_None:
  "\<not> has_reply_marker block \<Longrightarrow> walkDeep block postId_step (\<lambda>n p. p) None = None"
  by (simp add: walkDeep_fold fold_postId_step_None has_reply_marker_def string_leaves_def)

lemma parse_block_B_dropped:
  assumes "isArray block" and "get_prop data 1 = Inr pageToken"
  shows "(parse_block_B data block = Inr None) = (extractReviewId block pageToken = [])"
  using assms by (simp add: parse_block_B_def author_B_value Let_def)

text \<open>
  C1, as the specification has it: when \<^verbatim>\<open>block[0][0]\<close> equals the page token and no string
  leaf contains the reply-link marker, \<open>extractReviewId\<close> returns the empty string and
  the block is dropped. The code returns the candidate itself when it is a string
  (\<^verbatim>\<open>postId ?? (typeof candidate === 'string' ? candidate : '')\<close>): on the block
  \<^verbatim>\<open>[["tok"]]\<close> with the page token \<^verbatim>\<open>"tok"\<close> the identifier is \<^verbatim>\<open>"tok"\<close>, and the
  review is part of the result of \<open>parseBatch\<close>.
\<close>

theorem reviewId_page_token_not_dropped:
  "opt_get (opt_get (JArr [JArr [JStr ''tok'']]) 0) 0 = JStr ''tok''
   \<and> \<not> has_reply_marker (JArr [JArr [JStr ''tok'']])
   \<and> extractReviewId (JArr [JArr [JStr ''tok'']]) (JStr ''tok'') = ''tok''
   \<and> parseBatch_B JSON_parse key_unused ''[null,\"tok\",[[[\"tok\"]]]]'' Ugc
       = Inr \<lparr>reviews = [\<lparr>review_id = ''tok'', author = [], rating = None, review_text = [],
                             review_date = [], images = []\<rparr>],
               token = JStr ''tok''\<rparr>"
  by code_simp

text \<open>
  C1, amended: when \<^verbatim>\<open>block[0][0]\<close> equals the page token and no string leaf contains the
  reply-link marker, \<open>extractReviewId\<close> returns the page token when it is a string and the
  empty string otherwise; so the block is dropped exactly when the page token is not a
  string or is the empty string.
\<close>

theorem reviewId_when_candidate_is_page_token:
  assumes "opt_get (opt_get block 0) 0 = pageToken" and "\<not> has_reply_marker block"
  shows "extractReviewId block pageToken = (case pageToken of JStr c \<Rightarrow> c | _ \<Rightarrow> [])
    \<and> (isArray block \<and> get_prop data 1 = Inr pageToken \<longrightarrow>
         (parse_block_B data block = Inr None) = (case pageToken of JStr c \<Rightarrow> c = [] | _ \<Rightarrow> True))"
proof -
  have 1: "extractReviewId block pageToken = (case pageToken of JStr c \<Rightarrow> c | _ \<Rightarrow> [])"
    using assms
    by (auto simp: extractReviewId_def walk_postId_None Let_def split: jsval.splits)
  then have 2: "(extractReviewId block pageToken = [])
      = (case pageToken of JStr c \<Rightarrow> c = [] | _ \<Rightarrow> True)"
    by (simp split: jsval.splits)
  show ?thesis using 1 2 parse_block_B_dropped [of block data pageToken] by simp
qed

theorem reviewId_when_candidate_is_page_token_witness:
  "opt_get (opt_get (JArr [JArr [JStr ''tok'']]) 0) 0 = JStr ''tok''
   \<and> \<not> has_reply_marker (JArr [JArr [JStr ''tok'']])
   \<and> extractReviewId (JArr [JArr [JStr ''tok'']]) (JStr ''tok'') = ''tok''
   \<and> isArray (JArr [JArr [JStr ''tok'']])
   \<and> get_prop (JArr [JNull, JStr ''tok'']) 1 = Inr (JStr ''tok'')
   \<and> parse_block_B (JArr [JNull, JStr ''tok'']) (JArr [JArr [JStr ''tok'']]) \<noteq> Inr None"
proof -
  have h1: "opt_get (opt_get (JArr [JArr [JStr ''tok'']]) 0) 0 = JStr ''tok''" by code_simp
  have h2: "\<not> has_reply_marker (JArr [JArr [JStr ''tok'']])" by code_simp
  have h3: "isArray (JArr [JArr [JStr ''tok'']])" by simp
  have h4: "get_prop (JArr [JNull, JStr ''tok'']) 1 = Inr (JStr ''tok'')" by code_simp
  show ?thesis
    using h1 h2 h3 h4 reviewId_when_candidate_is_page_token [OF h1 h2, of "JArr [JNull, JStr ''tok'']"]
    by simp
qed

section \<open>Rating and images\<close>

lemma s_rating_scan_str [simp]: "s_rating (scan_str s st) = s_rating st"
  by (simp add: scan_str_def)

lemma s_images_scan_num [simp]: "s_images (scan_num n st) = s_images st"
  by (simp add: scan_num_def)

lemma s_rating_scan_num:
  "s_rating (scan_num n st) = (case s_rating st of Some r \<Rightarrow> Some r | None \<Rightarrow> if star n then Some n else None)"
  by (auto simp: scan_num_def star_def split: option.splits)

lemma s_images_scan_str:
  "s_images (scan_str s st) = (if startsWith s ''http'' then set_add (s_images st) s else s_images st)"
  by (simp add: scan_str_def)

lemma s_rating_fold:
  "s_rating (fold (leaf_step scan_str scan_num) ls st)
     = (case s_rating st of Some r \<Rightarrow> Some r | None \<Rightarrow> List.find star (leaf_numbers ls))"
proof (induction ls arbitrary: st rule: leaf_numbers.induct)
  case 1
  then show ?case by (simp split: option.splits)
next
  case (2 s ls)
  then show ?case by (simp add: leaf_step_def split: option.splits)
next
  case (3 n ls)
  then show ?case by (simp add: leaf_step_def s_rating_scan_num split: option.splits)
qed

lemma s_images_fold:
  "s_images (fold (leaf_step scan_str scan_num) ls st)
     = foldl set_add (s_images st) (filter (\<lambda>s. startsWith s ''http'') (leaf_strings ls))"
proof (induction ls arbitrary: st rule: leaf_strings.induct)
  case 1
  then show ?case by simp
next
  case (2 s ls)
  then show ?case by (simp add: leaf_step_def s_images_scan_str)
next
  case (3 n ls)
  then show ?case by (simp add: leaf_step_def)
qed

lemma first_occurrences_set: "set (first_occurrences xs) = set xs"
  by (induction xs rule: first_occurrences.induct) auto

lemma first_occurrences_distinct: "distinct (first_occurrences xs)"
  by (induction xs rule: first_occurrences.induct) (auto simp: first_occurrences_set)

lemma foldl_set_add:
  "foldl set_add acc xs = acc @ first_occurrences (filter (\<lambda>x. x \<notin> set acc) xs)"
proof (induction xs arbitrary: acc)
  case Nil
  then show ?case by simp
next
  case (Cons x xs)
  show ?case
  proof (cases "x \<in> set acc")
    case True
    then have "set_add acc x = acc" by (simp add: set_add_def)
    with True show ?thesis by (simp add: Cons.IH)
  next
    case False
    then have 1: "set_add acc x = acc @ [x]" by (simp add: set_add_def)
    have "filter (\<lambda>y. y \<notin> set (acc @ [x])) xs = filter (\<lambda>y. y \<noteq> x) (filter (\<lambda>y. y \<notin> set acc) xs)"
      by (induction xs) auto
    with False 1 show ?thesis by (simp add: Cons.IH)
  qed
qed

lemma spread_Set_first_occurrences: "spread_Set xs = first_occurrences xs"
  by (simp add: spread_Set_def foldl_set_add)

lemma scan_rating: "s_rating (walkDeep b scan_str scan_num scan_init) = List.find star (number_leaves b)"
  by (simp add: walkDeep_fold s_rating_fold scan_init_def number_leaves_def)

lemma scan_images: "s_images (walkDeep b scan_str scan_num scan_init) = first_occurrences (http_leaves b)"
  by (simp add: walkDeep_fold s_images_fold scan_init_def http_leaves_def string_leaves_def foldl_set_add)

lemma walk_push_image: "walk b push_image [] = http_leaves b"
proof -
  have "fold push_image xs acc = acc @ filter (\<lambda>s. startsWith s ''http'') xs" for xs acc
    by (induction xs arbitrary: acc) (simp_all add: push_image_def)
  then show ?thesis by (simp add: walk_fold http_leaves_def)
qed

lemma star_range: "star n \<Longrightarrow> \<exists>k. 1 \<le> k \<and> k \<le> 5 \<and> n = Fin (of_int k)"
proof (cases n)
  case (Fin q)
  assume "star n"
  with Fin have q: "of_int \<lfloor>q\<rfloor> = q" "1 \<le> q" "q \<le> 5"
    unfolding star_def by (simp_all del: of_int_floor_cancel)
  then have "1 \<le> \<lfloor>q\<rfloor>" "\<lfloor>q\<rfloor> \<le> 5" by linarith+
  with q(1) Fin show ?thesis by (intro exI [of _ "\<lfloor>q\<rfloor>"]) (simp del: of_int_floor_cancel)
qed (simp_all add: star_def)

lemma find_star_range:
  "List.find star ns = None \<or> (\<exists>k. 1 \<le> k \<and> k \<le> 5 \<and> List.find star ns = Some (Fin (of_int k)))"
proof (cases "List.find star ns")
  case None
  then show ?thesis by simp
next
  case (Some n)
  then have "star n" by (auto simp: find_Some_iff)
  with Some star_range [of n] show ?thesis by auto
qed

lemma parse_block_B_fields:
  assumes "parse_block_B data b = Inr (Some r)"
  shows "rating r = List.find star (number_leaves b)"
    and "images r = take 8 (first_occurrences (http_leaves b))"
  using assms
  by (auto simp: parse_block_B_def author_B_value Let_def scan_rating scan_images bindE_def
      split: if_splits sum.splits)

lemma parse_blocks_B_member:
  "parse_blocks_B data bs = Inr rs \<Longrightarrow> r \<in> set rs \<Longrightarrow>
     \<exists>b \<in> set bs. parse_block_B data b = Inr (Some r)"
proof (induction bs arbitrary: rs)
  case Nil
  then show ?case by simp
next
  case (Cons b bs)
  from Cons.prems(1) obtain x rs' where
    x: "parse_block_B data b = Inr x" and rs': "parse_blocks_B data bs = Inr rs'"
    and rs: "rs = (case x of None \<Rightarrow> rs' | Some y \<Rightarrow> y # rs')"
    by (auto simp: bindE_def split: sum.splits)
  show ?case
  proof (cases "r \<in> set rs'")
    case True
    with Cons.IH [OF rs'] show ?thesis by auto
  next
    case False
    with rs Cons.prems(2) have "x = Some r" by (cases x) auto
    with x show ?thesis by simp
  qed
qed

lemma parseBatch_B_member:
  assumes "parseBatch_B jp K raw ep = Inr res" and "r \<in> set (reviews res)"
  shows "\<exists>data bs b. jp (cleaned raw) = Some data \<and> blocks_of data = Inr bs \<and> b \<in> set bs
           \<and> parse_block_B data b = Inr (Some r)"
proof -
  from assms(1) obtain data where d: "jp (cleaned raw) = Some data"
    using assms(2) by (cases "jp (cleaned raw)") (auto simp: parseBatch_B_def)
  with assms(1) obtain bs rs where bs: "blocks_of data = Inr bs"
    and rs: "parse_blocks_B data bs = Inr rs" and res: "reviews res = rs"
    by (auto simp: parseBatch_B_def bindE_def split: sum.splits)
  from parse_blocks_B_member [OF rs] assms(2) res d bs show ?thesis by blast
qed

lemma parse_block_A_images:
  assumes "parse_block_A b = Inr (Some r)"
  shows "images r = take 8 (first_occurrences (http_leaves b))"
  using assms
  by (auto simp: parse_block_A_def Let_def walk_push_image spread_Set_first_occurrences bindE_def
      split: if_splits sum.splits)

lemma parse_blocks_A_member:
  "parse_blocks_A bs = Inr rs \<Longrightarrow> r \<in> set rs \<Longrightarrow>
     \<exists>b \<in> set bs. parse_block_A b = Inr (Some r)"
proof (induction bs arbitrary: rs)
  case Nil
  then show ?case by simp
next
  case (Cons b bs)
  from Cons.prems(1) obtain x rs' where
    x: "parse_block_A b = Inr x" and rs': "parse_blocks_A bs = Inr rs'"
    and rs: "rs = (case x of None \<Rightarrow> rs' | Some y \<Rightarrow> y # rs')"
    by (auto simp: bindE_def split: sum.splits)
  show ?case
  proof (cases "r \<in> set rs'")
    case True
    with Cons.IH [OF rs'] show ?thesis by auto
  next
    case False
    with rs Cons.prems(2) have "x = Some r" by (cases x) auto
    with x show ?thesis by simp
  qed
qed

lemma parseBatch_A_member:
  assumes "parseBatch_A jp K raw ep = Inr res" and "r \<in> set (reviews res)"
  shows "\<exists>data bs b. jp (cleaned raw) = Some data \<and> blocks_of data = Inr bs \<and> b \<in> set bs
           \<and> parse_block_A b = Inr (Some r)"
proof -
  from assms(1) obtain data where d: "jp (cleaned raw) = Some data"
    using assms(2) by (cases "jp (cleaned raw)") (auto simp: parseBatch_A_def)
  with assms(1) obtain bs rs where bs: "blocks_of data = Inr bs"
    and rs: "parse_blocks_A bs = Inr rs" and res: "reviews res = rs"
    by (auto simp: parseBatch_A_def bindE_def split: sum.splits)
  from parse_blocks_A_member [OF rs] assms(2) res d bs show ?thesis by blast
qed

lemma take_first_occurrences:
  "length (take 8 (first_occurrences xs)) \<le> 8" "distinct (take 8 (first_occurrences xs))"
  by (simp_all add: first_occurrences_distinct)

text \<open>
  C2, as the specification has it: every record in the result of \<open>parseBatch\<close> has a
  rating that is absent or the first integer from 1 to 5 among the numeric leaves of its
  block, in traversal order. \<open>parseBatch\<close> of the first variant reads the rating at a
  fixed position (\<^verbatim>\<open>b[2][0]\<close>, or \<^verbatim>\<open>b[4]\<close>): on the block
  \<^verbatim>\<open>[["id",3],"d",[5]]\<close> its rating is 5, and the first numeric leaf from 1 to 5 is 3.
\<close>

theorem rating_fixed_position_counterexample:
  "parseBatch_A JSON_parse key_unused payload_two_numbers Ugc
     = Inr \<lparr>reviews = [\<lparr>review_id = JStr ''id'', author = ''id'', rating = Some (Fin 5),
                           review_text = ''id'', review_date = ''d'', images = []\<rparr>],
             token = JNull\<rparr>
   \<and> JSON_parse (cleaned payload_two_numbers)
       = Some (JArr [JNull, JNull,
                     JArr [JArr [JArr [JStr ''id'', JNum (Fin 3)], JStr ''d'', JArr [JNum (Fin 5)]]]])
   \<and> List.find star
         (number_leaves (JArr [JArr [JStr ''id'', JNum (Fin 3)], JStr ''d'', JArr [JNum (Fin 5)]]))
       = Some (Fin 3)"
  by code_simp

text \<open>
  C2, amended: every record in the result of \<open>parseBatch\<close> of the second variant (the
  one with \<^verbatim>\<open>walkDeep\<close>) has a rating that is absent or an integer from 1 to 5, and it is
  the first such integer among the numeric leaves of the record's block in traversal order
  (absent when there is none).
\<close>

theorem rating_first_star_leaf:
  assumes "parseBatch_B jp K raw ep = Inr res" and "r \<in> set (reviews res)"
  shows "\<exists>data bs b. jp (cleaned raw) = Some data \<and> blocks_of data = Inr bs \<and> b \<in> set bs
           \<and> parse_block_B data b = Inr (Some r)
           \<and> rating r = List.find star (number_leaves b)
           \<and> (rating r = None \<or> (\<exists>k. 1 \<le> k \<and> k \<le> 5 \<and> rating r = Some (Fin (of_int k))))"
proof -
  from parseBatch_B_member [OF assms] obtain data bs b where
    *: "jp (cleaned raw) = Some data" "blocks_of data = Inr bs" "b \<in> set bs"
       "parse_block_B data b = Inr (Some r)" by blast
  from parse_block_B_fields(1) [OF *(4)] find_star_range [of "number_leaves b"] *
  show ?thesis by metis
qed

theorem rating_first_star_leaf_witness:
  "parseBatch_B JSON_parse key_unused payload_two_numbers Ugc
     = Inr \<lparr>reviews = [\<lparr>review_id = ''id'', author = [], rating = Some (Fin 3),
                           review_text = [], review_date = [], images = []\<rparr>],
             token = JNull\<rparr>
   \<and> (\<exists>data bs b. JSON_parse (cleaned payload_two_numbers) = Some data
         \<and> blocks_of data = Inr bs \<and> b \<in> set bs
         \<and> parse_block_B data b
             = Inr (Some \<lparr>review_id = ''id'', author = [], rating = Some (Fin 3),
                             review_text = [], review_date = [], images = []\<rparr>)
         \<and> Some (Fin 3) = List.find star (number_leaves b))"
proof -
  have h: "parseBatch_B JSON_parse key_unused payload_two_numbers Ugc
     = Inr \<lparr>reviews = [\<lparr>review_id = ''id'', author = [], rating = Some (Fin 3),
                           review_text = [], review_date = [], images = []\<rparr>],
             token = JNull\<rparr>"
    by code_simp
  show ?thesis using h rating_first_star_leaf [OF h] by auto
qed

text \<open>
  C4. In both variants every record in the result of \<open>parseBatch\<close> has at most 8 images,
  no two of them equal, and they are the first 8 of the strings of its block that start
  with \<^verbatim>\<open>http\<close>, in the order of their first occurrence in the traversal.
\<close>

theorem images_at_most_8_distinct_first_seen:
  "(parseBatch_B jp K raw ep = Inr res \<and> r \<in> set (reviews res) \<longrightarrow>
      length (images r) \<le> 8 \<and> distinct (images r)
      \<and> (\<exists>data bs b. jp (cleaned raw) = Some data \<and> blocks_of data = Inr bs \<and> b \<in> set bs
            \<and> parse_block_B data b = Inr (Some r)
            \<and> images r = take 8 (first_occurrences (http_leaves b))))
   \<and> (parseBatch_A jp K raw ep = Inr res' \<and> r' \<in> set (reviews res') \<longrightarrow>
      length (images r') \<le> 8 \<and> distinct (images r')
      \<and> (\<exists>data bs b. jp (cleaned raw) = Some data \<and> blocks_of data = Inr bs \<and> b \<in> set bs
            \<and> parse_block_A b = Inr (Some r')
            \<and> images r' = take 8 (first_occurrences (http_leaves b))))"
proof (intro conjI impI)
  assume a: "parseBatch_B jp K raw ep = Inr res \<and> r \<in> set (reviews res)"
  then obtain data bs b where
    *: "jp (cleaned raw) = Some data" "blocks_of data = Inr bs" "b \<in> set bs"
       "parse_block_B data b = Inr (Some r)"
    using parseBatch_B_member [of jp K raw ep res r] by blast
  note i = parse_block_B_fields(2) [OF *(4)]
  show "length (images r) \<le> 8" "distinct (images r)"
    by (simp_all add: i first_occurrences_distinct)
  show "\<exists>data bs b. jp (cleaned raw) = Some data \<and> blocks_of data = Inr bs \<and> b \<in> set bs
            \<and> parse_block_B data b = Inr (Some r)
            \<and> images r = take 8 (first_occurrences (http_leaves b))"
    using * i by blast
next
  assume a: "parseBatch_A jp K raw ep = Inr res' \<and> r' \<in> set (reviews res')"
  then obtain data bs b where
    *: "jp (cleaned raw) = Some data" "blocks_of data = Inr bs" "b \<in> set bs"
       "parse_block_A b = Inr (Some r')"
    using parseBatch_A_member [of jp K raw ep res' r'] by blast
  note i = parse_block_A_images [OF *(4)]
  show "length (images r') \<le> 8" "distinct (images r')"
    by (simp_all add: i first_occurrences_distinct)
  show "\<exists>data bs b. jp (cleaned raw) = Some data \<and> blocks_of data = Inr bs \<and> b \<in> set bs
            \<and> parse_block_A b = Inr (Some r')
            \<and> images r' = take 8 (first_occurrences (http_leaves b))"
    using * i by blast
qed

theorem images_at_most_8_distinct_first_seen_witness:
  "parseBatch_B JSON_parse key_unused payload_ten_urls Ugc
     = Inr \<lparr>reviews = [\<lparr>review_id = ''id'', author = [], rating = None, review_text = [],
                           review_date = [],
                           images = [''http1'', ''http2'', ''http3'', ''http4'', ''http5'',
                                     ''http6'', ''http7'', ''http8'']\<rparr>],
             token = JNull\<rparr>
   \<and> parseBatch_A JSON_parse key_unused payload_ten_urls Ugc
     = Inr \<lparr>reviews = [\<lparr>review_id = JStr ''id'', author = ''id'', rating = None,
                           review_text = ''id'', review_date = ''http1'',
                           images = [''http1'', ''http2'', ''http3'', ''http4'', ''http5'',
                                     ''http6'', ''http7'', ''http8'']\<rparr>],
             token = JNull\<rparr>
   \<and> (\<exists>data bs b. JSON_parse (cleaned payload_ten_urls) = Some data \<and> blocks_of data = Inr bs
         \<and> b \<in> set bs
         \<and> [''http1'', ''http2'', ''http3'', ''http4'', ''http5'', ''http6'', ''http7'', ''http8'']
             = take 8 (first_occurrences (http_leaves b)))"
proof -
  have hB: "parseBatch_B JSON_parse key_unused payload_ten_urls Ugc
     = Inr \<lparr>reviews = [\<lparr>review_id = ''id'', author = [], rating = None, review_text = [],
                           review_date = [],
                           images = [''http1'', ''http2'', ''http3'', ''http4'', ''http5'',
                                     ''http6'', ''http7'', ''http8'']\<rparr>],
             token = JNull\<rparr>"
    by code_simp
  have hA: "parseBatch_A JSON_parse key_unused payload_ten_urls Ugc
     = Inr \<lparr>reviews = [\<lparr>review_id = JStr ''id'', author = ''id'', rating = None,
                           review_text = ''id'', review_date = ''http1'',
                           images = [''http1'', ''http2'', ''http3'', ''http4'', ''http5'',
                                     ''http6'', ''http7'', ''http8'']\<rparr>],
             token = JNull\<rparr>"
    by code_simp
  show ?thesis
    using hA hB images_at_most_8_distinct_first_seen [where jp = JSON_parse and K = key_unused and raw = payload_ten_urls and ep = Ugc
        and res = "\<lparr>reviews = [\<lparr>review_id = ''id'', author = [], rating = None, review_text = [],
                           review_date = [],
                           images = [''http1'', ''http2'', ''http3'', ''http4'', ''http5'',
                                     ''http6'', ''http7'', ''http8'']\<rparr>],
             token = JNull\<rparr>"
        and r = "\<lparr>review_id = ''id'', author = [], rating = None, review_text = [],
                           review_date = [],
                           images = [''http1'', ''http2'', ''http3'', ''http4'', ''http5'',
                                     ''http6'', ''http7'', ''http8'']\<rparr>"
        and res' = "\<lparr>reviews = [\<lparr>review_id = JStr ''id'', author = ''id'', rating = None,
                           review_text = ''id'', review_date = ''http1'',
                           images = [''http1'', ''http2'', ''http3'', ''http4'', ''http5'',
                                     ''http6'', ''http7'', ''http8'']\<rparr>],
             token = JNull\<rparr>"
        and r' = "\<lparr>review_id = JStr ''id'', author = ''id'', rating = None,
                           review_text = ''id'', review_date = ''http1'',
                           images = [''http1'', ''http2'', ''http3'', ''http4'', ''http5'',
                                     ''http6'', ''http7'', ''http8'']\<rparr>"]
    by auto
qed


section \<open>Author\<close>

lemma fold_first_text_step:
  "fold first_text_step xs acc =
     (if acc \<noteq> [] then acc
      else case List.find (\<lambda>s. s \<noteq> [] \<and> \<not> startsWith s ''http'') xs of
             Some s \<Rightarrow> s | None \<Rightarrow> [])"
proof (induction xs arbitrary: acc)
  case Nil
  then show ?case by simp
next
  case (Cons x xs)
  show ?case
    by (simp add: Cons.IH) (auto simp: first_text_step_def startsWith_def)
qed

lemma author_A_value:
  "author_A b =
     (case List.find (\<lambda>s. s \<noteq> [] \<and> \<not> startsWith s ''http'') (string_leaves (opt_get b 0)) of
        Some s \<Rightarrow> s | None \<Rightarrow> [])"
  by (simp add: author_A_def walk_fold fold_first_text_step)

lemma parse_block_B_author:
  "parse_block_B data b = Inr (Some r) \<Longrightarrow> author_B b = Inr (author r)"
  by (auto simp: parse_block_B_def author_B_value Let_def bindE_def split: if_splits sum.splits)

lemma parse_block_A_author:
  "parse_block_A b = Inr (Some r) \<Longrightarrow> author_A b = author r"
  by (auto simp: parse_block_A_def Let_def bindE_def split: if_splits sum.splits)

text \<open>
  C9, as the specification has it: the author is read from the fixed nested path when it
  is there, otherwise it is the first string leaf of the block's first sub-tree that does
  not look like a URL (\<open>author_spec\<close>). Neither variant does both. The second variant has
  no fallback: on \<^verbatim>\<open>[["id","Bob"]]\<close> its author is empty, where the fallback gives
  \<^verbatim>\<open>"id"\<close>. The first variant does not read the path: on a block whose path holds
  \<^verbatim>\<open>"Alice"\<close> its author is \<^verbatim>\<open>"id"\<close>.
\<close>

theorem author_no_combined_strategy:
  "author_B block_id_name = Inr [] \<and> author_spec block_id_name = ''id''
   \<and> author_A block_with_author_path = ''id'' \<and> author_spec block_with_author_path = ''Alice''"
  by code_simp

text \<open>
  C9, amended: the second variant reads the author at \<^verbatim>\<open>b[0][1][4][5][0]\<close> when
  \<^verbatim>\<open>b[0][1][4][5]\<close> is an array that begins with a string, and otherwise gives the empty
  string; the first variant gives the first string leaf of \<^verbatim>\<open>b[0]\<close> that is not empty and
  does not start with \<^verbatim>\<open>http\<close>, or the empty string when there is none. Neither raises,
  and the author of a parsed record is that value.
\<close>

theorem author_one_strategy_per_variant:
  "author_B b =
     Inr (case opt_get (opt_get (opt_get (opt_get b 0) 1) 4) 5 of
            JArr (JStr s # xs) \<Rightarrow> s
          | _ \<Rightarrow> [])
   \<and> author_A b =
     (case List.find (\<lambda>s. s \<noteq> [] \<and> \<not> startsWith s ''http'') (string_leaves (opt_get b 0)) of
        Some s \<Rightarrow> s | None \<Rightarrow> [])
   \<and> (parse_block_B data b = Inr (Some r) \<longrightarrow> author_B b = Inr (author r))
   \<and> (parse_block_A b = Inr (Some r') \<longrightarrow> author_A b = author r')"
  using author_B_value author_A_value parse_block_B_author parse_block_A_author by blast

theorem author_one_strategy_per_variant_witness:
  "parse_block_B (JArr [JNull, JNull]) block_with_author_path
     = Inr (Some \<lparr>review_id = ''id'', author = ''Alice'', rating = None, review_text = [],
                     review_date = [], images = []\<rparr>)
   \<and> parse_block_A block_with_author_path
     = Inr (Some \<lparr>review_id = JStr ''id'', author = ''id'', rating = None,
                     review_text = ''id'', review_date = [], images = []\<rparr>)
   \<and> author_B block_with_author_path = Inr ''Alice''
   \<and> author_A block_with_author_path = ''id''"
proof -
  have hB: "parse_block_B (JArr [JNull, JNull]) block_with_author_path
     = Inr (Some \<lparr>review_id = ''id'', author = ''Alice'', rating = None, review_text = [],
                     review_date = [], images = []\<rparr>)"
    by code_simp
  have hA: "parse_block_A block_with_author_path
     = Inr (Some \<lparr>review_id = JStr ''id'', author = ''id'', rating = None,
                     review_text = ''id'', review_date = [], images = []\<rparr>)"
    by code_simp
  note t = author_one_strategy_per_variant
      [where b = block_with_author_path and data = "JArr [JNull, JNull]"
        and r = "\<lparr>review_id = ''id'', author = ''Alice'', rating = None, review_text = [],
                     review_date = [], images = []\<rparr>"
        and r' = "\<lparr>review_id = JStr ''id'', author = ''id'', rating = None,
                     review_text = ''id'', review_date = [], images = []\<rparr>"]
  from t [THEN conjunct2, THEN conjunct2, THEN conjunct1, rule_format, OF hB]
  have 1: "author_B block_with_author_path = Inr ''Alice''" by simp
  from t [THEN conjunct2, THEN conjunct2, THEN conjunct2, rule_format, OF hA]
  have 2: "author_A block_with_author_path = ''id''" by simp
  show ?thesis using hA hB 1 2 by simp
qed

section \<open>The scenario of the specification\<close>

text \<open>
  C5, as the specification has it: \<open>parseBatch\<close> with the flavor Entities on the payload
  \<^verbatim>\<open>)]}'[,,[["a"],"2024",[1],["hi"],["http://img/1.png"]]],null]\<close> yields one record.
  The text after the prefix is not JSON (\<^verbatim>\<open>[,\<close>), so \<^verbatim>\<open>JSON.parse\<close> raises and the
  result has no record.
\<close>

theorem spec_scenario_payload_is_not_JSON:
  "JSON_parse (cleaned payload_spec_scenario) = None
   \<and> parseBatch_B JSON_parse key_unused payload_spec_scenario Entities
       = Inr \<lparr>reviews = [], token = JNull\<rparr>"
  by code_simp

text \<open>
  C5, amended: on that payload \<open>parseBatch\<close> with the flavor Entities yields no record and
  the token \<^verbatim>\<open>null\<close>. On the payload
  \<^verbatim>\<open>)]}'[null,null,[[["a"],"2024",[1],["hi"],["http://img/1.png"]]],null]\<close>, which is
  JSON, it yields exactly one record, with the identifier \<^verbatim>\<open>"a"\<close>, one image, the rating
  1 (the numeric leaf of \<^verbatim>\<open>[1]\<close>) and the token \<^verbatim>\<open>null\<close>.
\<close>

theorem scenario_results:
  "parseBatch_B JSON_parse key_unused payload_spec_scenario Entities
     = Inr \<lparr>reviews = [], token = JNull\<rparr>
   \<and> parseBatch_B JSON_parse key_unused payload_scenario_wellformed Entities
     = Inr \<lparr>reviews = [\<lparr>review_id = ''a'', author = [], rating = Some (Fin 1),
                           review_text = [], review_date = [],
                           images = [''http://img/1.png'']\<rparr>],
             token = JNull\<rparr>"
  by code_simp

section \<open>Totality\<close>

text \<open>
  C10. \<open>parseBatch\<close> of the second variant is claimed never to raise. With the flavor
  Entities and the payload \<^verbatim>\<open>{"length":{"toString":0}}\<close> it raises a TypeError: the
  top-level value is an object, \<^verbatim>\<open>data.length - 1\<close> converts the object
  \<^verbatim>\<open>{"toString":0}\<close> to a number, and that object has no callable \<^verbatim>\<open>toString\<close>.
\<close>

theorem parseBatch_raises_on_length_object:
  "parseBatch_B JSON_parse K payload_length_object Entities = Inl TypeError"
  by code_simp

text \<open>
  In every other case \<open>parseBatch\<close> returns: each plain read is behind a test that fails
  on null and undefined.
\<close>

lemma blocks_of_total:
  "\<exists>bs. blocks_of data = Inr bs \<and> (bs \<noteq> [] \<longrightarrow> \<not> nullish data)"
proof (cases "isArray (opt_get data 2)")
  case False
  then show ?thesis by (simp add: blocks_of_def)
next
  case True
  then have n: "\<not> nullish data" by (auto dest: isArray_not_nullish not_nullish_opt_get)
  from True obtain xs where "opt_get data 2 = JArr xs" by (cases "opt_get data 2") simp_all
  with True n show ?thesis by (simp add: blocks_of_def get_prop_opt_get)
qed

lemma parse_block_B_total:
  "\<not> nullish data \<Longrightarrow> \<exists>x. parse_block_B data b = Inr x"
  by (simp add: parse_block_B_def get_prop_opt_get author_B_value Let_def)

lemma parse_blocks_B_total:
  "bs \<noteq> [] \<longrightarrow> \<not> nullish data \<Longrightarrow> \<exists>rs. parse_blocks_B data bs = Inr rs"
proof (induction bs)
  case Nil
  then show ?case by simp
next
  case (Cons b bs)
  then have n: "\<not> nullish data" by simp
  from parse_block_B_total [OF n] obtain x where x: "parse_block_B data b = Inr x" by blast
  from Cons.IH n obtain rs where "parse_blocks_B data bs = Inr rs" by blast
  with x show ?case by simp
qed

lemma last_read_total:
  assumes "\<not> nullish data"
    and "\<And>kvs. data = JObj kvs \<Longrightarrow> \<not> to_primitive_throws (own_prop kvs ''length'')"
  shows "\<exists>l. last_read K data = Inr l"
  using assms by (cases data) simp_all

lemma next_token_total:
  assumes "ep = Ugc \<or> (\<forall>kvs. data = JObj kvs \<longrightarrow> \<not> to_primitive_throws (own_prop kvs ''length''))"
  shows "\<exists>t. next_token K data ep = Inr t"
proof (cases ep)
  case Ugc
  show ?thesis
  proof (cases "isString (opt_get data 1)")
    case True
    then have "\<not> nullish data" by (auto dest: isString_not_nullish not_nullish_opt_get)
    with True Ugc show ?thesis by (simp add: next_token_def get_prop_opt_get)
  next
    case False
    with Ugc show ?thesis by (simp add: next_token_def)
  qed
next
  case Entities
  show ?thesis
  proof (cases "nullish data")
    case True
    with Entities show ?thesis by (simp add: next_token_def)
  next
    case False
    with assms Entities last_read_total [of data K] obtain l where l: "last_read K data = Inr l"
      by auto
    with False Entities show ?thesis
      by (auto simp: next_token_def get_prop_opt_get dest: isArray_not_nullish)
  qed
qed

lemma parseBatch_B_total_unless_length_conversion_raises:
  assumes "ep = Ugc \<or> (\<forall>kvs. jp (cleaned raw) = Some (JObj kvs)
              \<longrightarrow> \<not> to_primitive_throws (own_prop kvs ''length''))"
  shows "\<exists>res. parseBatch_B jp K raw ep = Inr res"
proof (cases "jp (cleaned raw)")
  case None
  then show ?thesis by (simp add: parseBatch_B_def)
next
  case (Some data)
  from blocks_of_total [of data] obtain bs where
    bs: "blocks_of data = Inr bs" "bs \<noteq> [] \<longrightarrow> \<not> nullish data" by blast
  from parse_blocks_B_total [OF bs(2)] obtain rs where rs: "parse_blocks_B data bs = Inr rs"
    by blast
  from assms Some have "ep = Ugc \<or> (\<forall>kvs. data = JObj kvs \<longrightarrow> \<not> to_primitive_throws (own_prop kvs ''length''))"
    by auto
  from next_token_total [OF this] obtain t where "next_token K data ep = Inr t" by blast
  with Some bs rs show ?thesis by (simp add: parseBatch_B_def)
qed


text \<open>So the payloads on which \<open>parseBatch\<close> raises are exactly those of that shape.\<close>

lemma next_token_raises:
  assumes "to_primitive_throws (own_prop kvs ''length'')"
  shows "next_token K (JObj kvs) Entities = Inl TypeError"
  using assms by (simp add: next_token_def)

lemma parseBatch_B_raises_iff:
  "(parseBatch_B jp K raw ep = Inl TypeError)
     = (ep = Entities \<and> (\<exists>kvs. jp (cleaned raw) = Some (JObj kvs)
                            \<and> to_primitive_throws (own_prop kvs ''length'')))"
proof
  assume l: "parseBatch_B jp K raw ep = Inl TypeError"
  show "ep = Entities \<and> (\<exists>kvs. jp (cleaned raw) = Some (JObj kvs)
                            \<and> to_primitive_throws (own_prop kvs ''length''))"
  proof (rule ccontr)
    assume "\<not> ?thesis"
    then have "ep = Ugc \<or> (\<forall>kvs. jp (cleaned raw) = Some (JObj kvs)
              \<longrightarrow> \<not> to_primitive_throws (own_prop kvs ''length''))"
      by (cases ep) auto
    then have "\<exists>res. parseBatch_B jp K raw ep = Inr res"
      by (rule parseBatch_B_total_unless_length_conversion_raises)
    with l show False by simp
  qed
next
  assume r: "ep = Entities \<and> (\<exists>kvs. jp (cleaned raw) = Some (JObj kvs)
                            \<and> to_primitive_throws (own_prop kvs ''length''))"
  then obtain kvs where d: "jp (cleaned raw) = Some (JObj kvs)"
    and t: "to_primitive_throws (own_prop kvs ''length'')" by blast
  from blocks_of_total [of "JObj kvs"] obtain bs where
    bs: "blocks_of (JObj kvs) = Inr bs" by blast
  have "\<exists>rs. parse_blocks_B (JObj kvs) bs = Inr rs"
    by (rule parse_blocks_B_total) simp
  then obtain rs where rs: "parse_blocks_B (JObj kvs) bs = Inr rs" by blast
  from r d bs rs next_token_raises [OF t, of K] show "parseBatch_B jp K raw ep = Inl TypeError"
    by (simp add: parseBatch_B_def)
qed

section \<open>Rewriting the token twice\<close>

lemma replace_marker_split:
  "replace_marker tag rep url =
     (case marker_split tag url of None \<Rightarrow> url | Some (p, sg, q) \<Rightarrow> p @ rep @ q)"
  by (induction url) (auto split: option.splits)

lemma marker_split_recompose:
  "marker_split tag url = Some (p, sg, q) \<Longrightarrow> url = p @ tag @ sg @ q"
proof (induction url arbitrary: p)
  case Nil
  then show ?case by simp
next
  case (Cons c cs)
  show ?case
  proof (cases "prefix tag (c # cs)")
    case True
    then obtain zs where zs: "c # cs = tag @ zs" by (auto simp: prefix_def)
    from True Cons.prems have "p = []" "sg = takeWhile not_bang (drop (length tag) (c # cs))"
      "q = dropWhile not_bang (drop (length tag) (c # cs))" by simp_all
    moreover from zs have "drop (length tag) (c # cs) = zs" by simp
    ultimately show ?thesis using zs by simp
  next
    case False
    with Cons.prems obtain p' where "marker_split tag cs = Some (p', sg, q)" "p = c # p'"
      by (auto split: option.splits)
    with Cons.IH [of p'] show ?thesis by simp
  qed
qed

lemma takeWhile_dropWhile_Nil: "takeWhile P (dropWhile P xs) = []"
  by (induction xs) simp_all

lemma marker_split_rest:
  "marker_split tag url = Some (p, sg, q) \<Longrightarrow> takeWhile not_bang q = [] \<and> dropWhile not_bang q = q"
proof (induction url arbitrary: p)
  case Nil
  then show ?case by simp
next
  case (Cons c cs)
  show ?case
  proof (cases "prefix tag (c # cs)")
    case True
    with Cons.prems have "q = dropWhile not_bang (drop (length tag) (c # cs))" by simp
    then show ?thesis by (simp add: takeWhile_dropWhile_Nil)
  next
    case False
    with Cons.prems obtain p' where "marker_split tag cs = Some (p', sg, q)"
      by (auto split: option.splits)
    with Cons.IH [of p'] show ?thesis by simp
  qed
qed

lemma prefix_long_append:
  "length tag \<le> length xs \<Longrightarrow> prefix tag (xs @ ys) = prefix tag xs"
  by (metis prefix_append prefix_length_le prefix_order.antisym prefix_order.refl append_Nil2
      prefix_def append_eq_append_conv_if append_assoc take_all_iff)


lemma marker_split_rewritten:
  assumes "tag \<noteq> []" and "list_all not_bang e"
  shows "marker_split tag url = Some (p, sg, q) \<Longrightarrow>
         marker_split tag (p @ tag @ e @ q) = Some (p, e, q)"
proof (induction url arbitrary: p)
  case Nil
  then show ?case by simp
next
  case (Cons c cs)
  from assms(1) obtain t ts where tag: "tag = t # ts" by (cases tag) auto
  from assms(2) have e: "takeWhile not_bang (e @ q') = e @ takeWhile not_bang q'"
    "dropWhile not_bang (e @ q') = dropWhile not_bang q'" for q'
    by (simp_all add: list_all_iff takeWhile_append2 dropWhile_append2)
  show ?case
  proof (cases "prefix tag (c # cs)")
    case True
    with Cons.prems have p: "p = []" by simp
    note r = marker_split_rest [OF Cons.prems]
    have "marker_split tag (tag @ e @ q)
        = Some ([], takeWhile not_bang (e @ q), dropWhile not_bang (e @ q))"
      by (simp add: tag)
    with p r e show ?thesis by simp
  next
    case False
    with Cons.prems obtain p' where p': "marker_split tag cs = Some (p', sg, q)" "p = c # p'"
      by (auto split: option.splits)
    from marker_split_recompose [OF p'(1)] have cs: "cs = p' @ tag @ sg @ q" .
    have len: "length tag \<le> length (c # p' @ tag)" by simp
    have "prefix tag ((c # p' @ tag) @ e @ q) = prefix tag (c # p' @ tag)"
      using len by (rule prefix_long_append)
    also have "\<dots> = prefix tag ((c # p' @ tag) @ sg @ q)"
      using len by (rule prefix_long_append [symmetric])
    also have "\<dots> = prefix tag (c # cs)" by (simp add: cs)
    finally have "\<not> prefix tag (c # p' @ tag @ e @ q)" using False by simp
    with Cons.IH [OF p'(1)] p'(2) show ?thesis by simp
  qed
qed

lemma replace_twice:
  assumes "tag \<noteq> []" and "list_all not_bang e1" and "list_all not_bang e2"
  shows "replace_marker tag (tag @ e2) (replace_marker tag (tag @ e1) url)
           = replace_marker tag (tag @ e2) url"
    and "outside_segment tag (replace_marker tag (tag @ e2) (replace_marker tag (tag @ e1) url))
           = outside_segment tag url"
proof -
  have *: "replace_marker tag (tag @ e2) (replace_marker tag (tag @ e1) url)
           = replace_marker tag (tag @ e2) url
      \<and> outside_segment tag (replace_marker tag (tag @ e2) (replace_marker tag (tag @ e1) url))
           = outside_segment tag url"
  proof (cases "marker_split tag url")
    case None
    then show ?thesis by (simp add: replace_marker_split)
  next
    case (Some x)
    obtain p sg q where x: "x = (p, sg, q)" by (cases x)
    with Some have s0: "marker_split tag url = Some (p, sg, q)" by simp
    have s1: "marker_split tag (p @ tag @ e1 @ q) = Some (p, e1, q)"
      using assms(1,2) s0 by (rule marker_split_rewritten)
    have s2: "marker_split tag (p @ tag @ e2 @ q) = Some (p, e2, q)"
      using assms(1,3) s0 by (rule marker_split_rewritten)
    show ?thesis
      by (simp add: replace_marker_split s0 s1 s2 outside_segment_def)
  qed
  from * show "replace_marker tag (tag @ e2) (replace_marker tag (tag @ e1) url)
           = replace_marker tag (tag @ e2) url"
    by (rule conjunct1)
  from * show "outside_segment tag (replace_marker tag (tag @ e2) (replace_marker tag (tag @ e1) url))
           = outside_segment tag url"
    by (rule conjunct2)
qed

lemma hex_char_not_bang: "d < 16 \<Longrightarrow> not_bang (hex_char d)"
proof -
  assume d: "d < 16"
  have "of_char (hex_char d) \<noteq> (33 :: nat)"
    using d by (auto simp: hex_char_def)
  moreover have "of_char (CHR ''!'') = (33 :: nat)" by simp
  ultimately show ?thesis unfolding not_bang_def by metis
qed

lemma percent_not_bang: "b < 256 \<Longrightarrow> list_all not_bang (percent b)"
proof -
  assume "b < 256"
  then have "b div 16 < 16" "b mod 16 < 16" by simp_all
  then have "not_bang (hex_char (b div 16))" "not_bang (hex_char (b mod 16))"
    by (simp_all add: hex_char_not_bang)
  then show ?thesis by (simp add: percent_def not_bang_def)
qed

lemma encode_unit_not_bang: "not_bang c \<Longrightarrow> list_all not_bang (encode_unit c)"
proof -
  assume c: "not_bang c"
  have n: "(of_char c :: nat) < 256" by simp
  then have "192 + (of_char c :: nat) div 64 < 256" "128 + (of_char c :: nat) mod 64 < 256"
    by arith+
  with c n show ?thesis by (simp add: encode_unit_def percent_not_bang)
qed

lemma encodeURIComponent_not_bang:
  "CHR ''!'' \<notin> set t \<Longrightarrow> list_all not_bang (encodeURIComponent t)"
proof (induction t)
  case Nil
  then show ?case by (simp add: encodeURIComponent_def)
next
  case (Cons a t)
  then have "not_bang a" by (auto simp: not_bang_def)
  then have 1: "list_all not_bang (encode_unit a)" by (rule encode_unit_not_bang)
  from Cons have 2: "list_all not_bang (encodeURIComponent t)" by simp
  have "encodeURIComponent (a # t) = encode_unit a @ encodeURIComponent t"
    by (simp add: encodeURIComponent_def)
  with 1 2 show ?case by simp
qed

text \<open>
  C6, as the specification has it: after rewriting a url with \<open>t1\<close> and the result with
  \<open>t2\<close>, the parts of the url outside the token-bearing segment are those of the original.
  \<^verbatim>\<open>encodeURIComponent\<close> leaves \<^verbatim>\<open>!\<close> as it is, and \<^verbatim>\<open>!\<close> ends the segment: after the
  tokens \<^verbatim>\<open>a!b\<close> and \<^verbatim>\<open>c\<close> the url \<^verbatim>\<open>x!3sOLD!4s\<close> has become \<^verbatim>\<open>x!3sc!b!4s\<close>, whose
  text after the segment is \<^verbatim>\<open>!b!4s\<close> where the original has \<^verbatim>\<open>!4s\<close>.
\<close>

theorem rewrite_twice_bang_token_counterexample:
  "withEntitiesToken (withEntitiesToken ''x!3sOLD!4s'' ''a!b'') ''c'' = ''x!3sc!b!4s''
   \<and> outside_segment ''!3s'' (withEntitiesToken (withEntitiesToken ''x!3sOLD!4s'' ''a!b'') ''c'')
       = Some (''x'', ''!b!4s'')
   \<and> outside_segment ''!3s'' ''x!3sOLD!4s'' = Some (''x'', ''!4s'')"
  by code_simp


text \<open>
  C6, amended: for tokens \<open>t1\<close> and \<open>t2\<close> that do not contain \<^verbatim>\<open>!\<close>, rewriting a url with
  \<open>t1\<close> and the result with \<open>t2\<close> leaves the text before the marker and the text after its
  segment as they are in the original url (a url without the marker stays without it), for
  both flavors; the result is the original url rewritten once with \<open>t2\<close>.
\<close>

theorem rewrite_twice_outside_unchanged:
  assumes "CHR ''!'' \<notin> set t1" and "CHR ''!'' \<notin> set t2"
  shows "outside_segment ''!3s'' (withEntitiesToken (withEntitiesToken url t1) t2)
           = outside_segment ''!3s'' url
       \<and> outside_segment ''!2s'' (withUgcToken (withUgcToken url t1) t2)
           = outside_segment ''!2s'' url
       \<and> withEntitiesToken (withEntitiesToken url t1) t2 = withEntitiesToken url t2
       \<and> withUgcToken (withUgcToken url t1) t2 = withUgcToken url t2"
proof -
  note a = encodeURIComponent_not_bang [OF assms(1)] and b = encodeURIComponent_not_bang [OF assms(2)]
  have n3: "''!3s'' \<noteq> []" and n2: "''!2s'' \<noteq> []" by simp_all
  from replace_twice [OF n3 a b, of url] replace_twice [OF n2 a b, of url]
  show ?thesis unfolding withEntitiesToken_def withUgcToken_def by blast
qed

theorem rewrite_twice_outside_unchanged_witness:
  "CHR ''!'' \<notin> set ''a+b'' \<and> CHR ''!'' \<notin> set ''c''
   \<and> outside_segment ''!3s'' (withEntitiesToken (withEntitiesToken ''x!3sOLD!4s'' ''a+b'') ''c'')
       = Some (''x'', ''!4s'')
   \<and> outside_segment ''!3s'' ''x!3sOLD!4s'' = Some (''x'', ''!4s'')
   \<and> withEntitiesToken (withEntitiesToken ''x!3sOLD!4s'' ''a+b'') ''c'' = ''x!3sc!4s''"
proof -
  have h1: "CHR ''!'' \<notin> set ''a+b''" by simp
  have h2: "CHR ''!'' \<notin> set ''c''" by simp
  have e: "outside_segment ''!3s'' ''x!3sOLD!4s'' = Some (''x'', ''!4s'')"
    "withEntitiesToken ''x!3sOLD!4s'' ''c'' = ''x!3sc!4s''"
    "outside_segment ''!3s'' ''x!3sc!4s'' = Some (''x'', ''!4s'')" by code_simp+
  show ?thesis using h1 h2 e rewrite_twice_outside_unchanged [OF h1 h2, of "''x!3sOLD!4s''"] by simp
qed

section \<open>The gateway, run twice\<close>

lemma insertions_append: "insertions (xs @ ys) = insertions xs @ insertions ys"
  by (induction xs rule: insertions.induct) simp_all

lemma insert_rows_ids:
  "set (map review_id (insert_rows tbl rows)) = set (map review_id tbl) \<union> set (map review_id rows)"
  by (induction rows arbitrary: tbl) auto

lemma insertIfNew_all_present:
  assumes "set (map review_id rows) \<subseteq> set (stored_ids db)"
  shows "insertIfNew db rows
           = (if rows = [] then db
              else db\<lparr>received := received db @ [Select_review_ids (map review_id rows)]\<rparr>)"
proof -
  have "filter (\<lambda>r. review_id r \<notin> set (filter (\<lambda>i. i \<in> set (map review_id rows)) (stored_ids db))) rows = []"
    using assms by (auto simp: filter_empty_conv)
  then show ?thesis
    by (simp add: insertIfNew_def query_select_def Let_def)
qed

lemma insertIfNew_stored_ids:
  "set (map review_id rows) \<subseteq> set (stored_ids (insertIfNew db rows))"
proof (cases "rows = []")
  case True
  then show ?thesis by simp
next
  case False
  define fresh where
    "fresh = filter (\<lambda>r. review_id r \<notin> set (filter (\<lambda>i. i \<in> set (map review_id rows)) (stored_ids db))) rows"
  show ?thesis
  proof (cases "fresh = []")
    case True
    then have "insertIfNew db rows = db\<lparr>received := received db @ [Select_review_ids (map review_id rows)]\<rparr>"
      using False by (simp add: insertIfNew_def query_select_def Let_def fresh_def)
    moreover from True have "set (map review_id rows) \<subseteq> set (stored_ids db)"
      by (auto simp: fresh_def filter_empty_conv)
    ultimately show ?thesis by (simp add: stored_ids_def)
  next
    case nonempty: False
    then have "insertIfNew db rows
        = query_insert (db\<lparr>received := received db @ [Select_review_ids (map review_id rows)]\<rparr>) fresh"
      using False by (simp add: insertIfNew_def query_select_def Let_def fresh_def)
    then have "set (stored_ids (insertIfNew db rows))
        = set (stored_ids db) \<union> set (map review_id fresh)"
      using insert_rows_ids [of "table db" fresh]
      by (simp add: stored_ids_def query_insert_def)
    then show ?thesis by (auto simp: fresh_def)
  qed
qed

text \<open>
  C7. Running \<open>insertIfNew\<close> a second time with the same rows on the storage that the
  first run left adds no insertion to the statements received and leaves the table as it
  is; and whenever every identifier submitted is in the table already, \<open>insertIfNew\<close>
  sends no insertion.
\<close>

theorem insertIfNew_second_run_inserts_nothing:
  "insertions (received (insertIfNew (insertIfNew db rows) rows))
     = insertions (received (insertIfNew db rows))
   \<and> table (insertIfNew (insertIfNew db rows) rows) = table (insertIfNew db rows)
   \<and> (set (map review_id rows) \<subseteq> set (stored_ids db) \<longrightarrow>
        insertions (received (insertIfNew db rows)) = insertions (received db)
        \<and> table (insertIfNew db rows) = table db)"
proof -
  have 1: "insertions (received (insertIfNew d rows)) = insertions (received d)
           \<and> table (insertIfNew d rows) = table d"
    if "set (map review_id rows) \<subseteq> set (stored_ids d)" for d
    using insertIfNew_all_present [OF that] by (simp add: insertions_append)
  from 1 [OF insertIfNew_stored_ids [of rows db]] 1 [of db] show ?thesis by blast
qed

theorem insertIfNew_second_run_inserts_nothing_witness:
  "set (map review_id [example_row, example_row_2])
     \<subseteq> set (stored_ids \<lparr>table = [example_row_2, example_row], received = []\<rparr>)
   \<and> insertions (received (insertIfNew \<lparr>table = [example_row_2, example_row], received = []\<rparr>
                     [example_row, example_row_2])) = []
   \<and> table (insertIfNew \<lparr>table = [example_row_2, example_row], received = []\<rparr>
               [example_row, example_row_2]) = [example_row_2, example_row]
   \<and> insertions (received (insertIfNew \<lparr>table = [], received = []\<rparr> [example_row, example_row_2]))
       = [[example_row, example_row_2]]
   \<and> insertions (received (insertIfNew (insertIfNew \<lparr>table = [], received = []\<rparr>
                     [example_row, example_row_2]) [example_row, example_row_2]))
       = [[example_row, example_row_2]]"
proof -
  have h: "set (map review_id [example_row, example_row_2])
     \<subseteq> set (stored_ids \<lparr>table = [example_row_2, example_row], received = []\<rparr>)"
    by (simp add: stored_ids_def example_row_def example_row_2_def)
  have e: "insertions (received (insertIfNew \<lparr>table = [], received = []\<rparr> [example_row, example_row_2]))
       = [[example_row, example_row_2]]"
    by (simp add: insertIfNew_def query_select_def query_insert_def stored_ids_def Let_def
        example_row_def example_row_2_def)
  note t1 = insertIfNew_second_run_inserts_nothing [where db = "\<lparr>table = [example_row_2, example_row], received = []\<rparr>"
      and rows = "[example_row, example_row_2]"]
  note t2 = insertIfNew_second_run_inserts_nothing [where db = "\<lparr>table = [], received = []\<rparr>" and rows = "[example_row, example_row_2]"]
  from t1 [THEN conjunct2, THEN conjunct2, rule_format, OF h]
  have a: "insertions (received (insertIfNew \<lparr>table = [example_row_2, example_row], received = []\<rparr>
                     [example_row, example_row_2])) = []"
    "table (insertIfNew \<lparr>table = [example_row_2, example_row], received = []\<rparr>
               [example_row, example_row_2]) = [example_row_2, example_row]"
    by simp_all
  from t2 [THEN conjunct1] e
  have b: "insertions (received (insertIfNew (insertIfNew \<lparr>table = [], received = []\<rparr>
                     [example_row, example_row_2]) [example_row, example_row_2]))
       = [[example_row, example_row_2]]"
    by simp
  from h a e b show ?thesis by blast
qed


end
